theory Spec2Isabelle
  imports Complex_Main "HOL-Library.Monad_Syntax"
begin

section \<open>The numbers of the program\<close>

subsection \<open>size\_t\<close>

text \<open>
  \<^verbatim>\<open>size_t\<close> is taken as the 64-bit unsigned integer of an LP64 platform. It is modelled
  as \<open>nat\<close>, with the wrap-around of \<^verbatim>\<open>+\<close>, \<^verbatim>\<open>-\<close> and \<^verbatim>\<open>*\<close> written out. Two loop
  counters are incremented without the wrap: \<^verbatim>\<open>n++\<close> and \<^verbatim>\<open>v++\<close> are reached only after
  \<^verbatim>\<open>displacement_[n]\<close> was in range respectively \<^verbatim>\<open>v < vend\<close> held, so neither can be
  \<open>2^64 - 1\<close> before the increment.
\<close>

definition sz_add :: "nat \<Rightarrow> nat \<Rightarrow> nat" where
  "sz_add a b = (a + b) mod 2 ^ 64"

definition sz_sub :: "nat \<Rightarrow> nat \<Rightarrow> nat" where
  "sz_sub a b = (a + 2 ^ 64 - b) mod 2 ^ 64"

definition sz_mul :: "nat \<Rightarrow> nat \<Rightarrow> nat" where
  "sz_mul a b = (a * b) mod 2 ^ 64"

subsection \<open>double\<close>

text \<open>
  A \<^verbatim>\<open>double\<close> is a finite value or one of the three special values of IEEE 754. The
  finite values are idealised as reals: rounding and overflow of finite results are not
  modelled, and there is one zero (a division of a non-zero finite value by zero gives
  the infinity with the sign of the numerator). The special values are kept with the
  IEEE 754 rules, since the comparisons and the divisions of the program behave
  differently on them. The \<^verbatim>\<open>float\<close> components of the vertex store are values of the
  same type.
\<close>

datatype double = Fin real | PInf | MInf | NaN

instantiation double :: "{plus, minus, times, inverse, ord}"
begin

fun plus_double :: "double \<Rightarrow> double \<Rightarrow> double" where
  "plus_double (Fin a) (Fin b) = Fin (a + b)"
| "plus_double NaN _ = NaN"
| "plus_double _ NaN = NaN"
| "plus_double PInf MInf = NaN"
| "plus_double MInf PInf = NaN"
| "plus_double PInf _ = PInf"
| "plus_double _ PInf = PInf"
| "plus_double MInf _ = MInf"
| "plus_double _ MInf = MInf"

fun minus_double :: "double \<Rightarrow> double \<Rightarrow> double" where
  "minus_double (Fin a) (Fin b) = Fin (a - b)"
| "minus_double NaN _ = NaN"
| "minus_double _ NaN = NaN"
| "minus_double PInf PInf = NaN"
| "minus_double MInf MInf = NaN"
| "minus_double PInf _ = PInf"
| "minus_double _ MInf = PInf"
| "minus_double MInf _ = MInf"
| "minus_double _ PInf = MInf"

fun times_double :: "double \<Rightarrow> double \<Rightarrow> double" where
  "times_double (Fin a) (Fin b) = Fin (a * b)"
| "times_double NaN _ = NaN"
| "times_double _ NaN = NaN"
| "times_double (Fin a) PInf = (if a = 0 then NaN else if 0 < a then PInf else MInf)"
| "times_double (Fin a) MInf = (if a = 0 then NaN else if 0 < a then MInf else PInf)"
| "times_double PInf (Fin b) = (if b = 0 then NaN else if 0 < b then PInf else MInf)"
| "times_double MInf (Fin b) = (if b = 0 then NaN else if 0 < b then MInf else PInf)"
| "times_double PInf PInf = PInf"
| "times_double PInf MInf = MInf"
| "times_double MInf PInf = MInf"
| "times_double MInf MInf = PInf"

fun divide_double :: "double \<Rightarrow> double \<Rightarrow> double" where
  "divide_double (Fin a) (Fin b) =
     (if b = 0 then (if a = 0 then NaN else if 0 < a then PInf else MInf) else Fin (a / b))"
| "divide_double NaN _ = NaN"
| "divide_double _ NaN = NaN"
| "divide_double (Fin a) PInf = Fin 0"
| "divide_double (Fin a) MInf = Fin 0"
| "divide_double PInf (Fin b) = (if 0 \<le> b then PInf else MInf)"
| "divide_double MInf (Fin b) = (if 0 \<le> b then MInf else PInf)"
| "divide_double PInf PInf = NaN"
| "divide_double PInf MInf = NaN"
| "divide_double MInf PInf = NaN"
| "divide_double MInf MInf = NaN"

definition inverse_double :: "double \<Rightarrow> double" where
  "inverse_double x = Fin 1 div x"

fun less_double :: "double \<Rightarrow> double \<Rightarrow> bool" where
  "less_double (Fin a) (Fin b) = (a < b)"
| "less_double NaN _ = False"
| "less_double _ NaN = False"
| "less_double MInf MInf = False"
| "less_double MInf _ = True"
| "less_double PInf _ = False"
| "less_double _ PInf = True"
| "less_double _ MInf = False"

definition less_eq_double :: "double \<Rightarrow> double \<Rightarrow> bool" where
  "less_eq_double x y = (x < y \<or> (x = y \<and> x \<noteq> NaN))"

instance ..

end

text \<open>The operator \<^verbatim>\<open>!=\<close> on doubles: a NaN differs from everything, itself included.\<close>

definition dne :: "double \<Rightarrow> double \<Rightarrow> bool" where
  "dne a b = (a = NaN \<or> b = NaN \<or> a \<noteq> b)"

text \<open>
  \<^verbatim>\<open>fmod(x, y)\<close> is \<open>x - n * y\<close>, where \<open>n\<close> is the quotient \<open>x / y\<close> truncated towards
  zero; it is NaN when \<open>x\<close> is infinite or \<open>y\<close> is zero, and \<open>x\<close> when only \<open>y\<close> is infinite.
\<close>

definition trunc :: "real \<Rightarrow> int" where
  "trunc q = (if 0 \<le> q then \<lfloor>q\<rfloor> else \<lceil>q\<rceil>)"

fun fmod :: "double \<Rightarrow> double \<Rightarrow> double" where
  "fmod (Fin x) (Fin y) = (if y = 0 then NaN else Fin (x - of_int (trunc (x / y)) * y))"
| "fmod NaN _ = NaN"
| "fmod _ NaN = NaN"
| "fmod (Fin x) _ = Fin x"
| "fmod _ _ = NaN"

fun dsin :: "double \<Rightarrow> double" where
  "dsin (Fin x) = Fin (sin x)"
| "dsin _ = NaN"

definition M_PI :: double where
  "M_PI = Fin pi"

text \<open>The conversion of a \<^verbatim>\<open>size_t\<close> to \<^verbatim>\<open>double\<close>.\<close>

definition of_size_t :: "nat \<Rightarrow> double" where
  "of_size_t n = Fin (real n)"

section \<open>The mesh layer\<close>

text \<open>
  The vertex store of the mesh is a \<^verbatim>\<open>std::vector<std::vector<float> >\<close>: one vector of
  floats for each vertex. With the vertex format \<open>3, 3, 3, 3\<close> set by \<^verbatim>\<open>create_mesh\<close>, a
  vertex holds 12 floats: the position of the vertex and the three positions of the
  triangle it belongs to.
\<close>

datatype vec3 = Vec3 double double double

type_synonym vertex = "double list"

text \<open>
  Reading and writing an element of a vector with \<^verbatim>\<open>operator[]\<close>. An index out of range
  is undefined behaviour in the program; it is the value \<open>None\<close> here.
\<close>

definition vec_at :: "'a list \<Rightarrow> nat \<Rightarrow> 'a option" where
  "vec_at xs i = (if i < length xs then Some (xs ! i) else None)"

definition vec_put :: "vertex list \<Rightarrow> nat \<Rightarrow> nat \<Rightarrow> double \<Rightarrow> vertex list option" where
  "vec_put vs v k x =
     (if v < length vs \<and> k < length (vs ! v)
      then Some (vs[v := (vs ! v)[k := x]]) else None)"

text \<open>
  Modelled from the spec: the class \<^verbatim>\<open>Mesh\<close> (\<^verbatim>\<open>next_vertex\<close>, \<^verbatim>\<open>set_attrib\<close>,
  \<^verbatim>\<open>make_grid\<close>) is not part of the source file. A vertex holds 4 attribute slots of 3
  floats; \<^verbatim>\<open>next_vertex\<close> starts a new vertex at the end of the store and
  \<^verbatim>\<open>set_attrib\<close> fills one slot of it.
\<close>

definition next_vertex :: "vertex list \<Rightarrow> vertex list" where
  "next_vertex mesh = mesh @ [replicate 12 (Fin 0)]"

fun set_attrib :: "nat \<Rightarrow> vec3 \<Rightarrow> vertex list \<Rightarrow> vertex list" where
  "set_attrib pos (Vec3 x y z) mesh =
     (if mesh = [] then mesh
      else butlast mesh @ [(last mesh)[3 * pos := x, 3 * pos + 1 := y, 3 * pos + 2 := z]])"

text \<open>
  Modelled from the spec: \<^verbatim>\<open>Mesh::make_grid\<close> is not part of the source file. It visits
  the \<open>n_x * n_y\<close> quads, all quads of one length index after those of the one before
  (the order that the index formula \<open>v / (6 * nwidth)\<close> needs), and calls the callback once
  for each quad with the four corners, computed by linear interpolation over
  \<open>[0, length] \<times> [0, width]\<close> at the height \<open>z\<close>. The corners \<open>ul\<close> and \<open>ll\<close> lie on the
  line of length index \<open>i\<close>, the corners \<open>ur\<close> and \<open>lr\<close> on the line \<open>i + 1\<close>.
\<close>

definition line_pos :: "double \<Rightarrow> nat \<Rightarrow> nat \<Rightarrow> double" where
  "line_pos extent n_total i = of_size_t i * extent / of_size_t n_total"

definition make_grid ::
  "nat \<Rightarrow> nat \<Rightarrow> double \<Rightarrow> double \<Rightarrow> double \<Rightarrow>
   (vertex list \<Rightarrow> nat \<Rightarrow> nat \<Rightarrow> nat \<Rightarrow> nat \<Rightarrow> vec3 \<Rightarrow> vec3 \<Rightarrow> vec3 \<Rightarrow> vec3 \<Rightarrow> vertex list) \<Rightarrow>
   vertex list" where
  "make_grid n_x n_y len width z conf_func =
     fold (\<lambda>i mesh.
       fold (\<lambda>j mesh.
         conf_func mesh i j n_x n_y
           (Vec3 (line_pos len n_x i) (line_pos width n_y j) z)
           (Vec3 (line_pos len n_x i) (line_pos width n_y (j + 1)) z)
           (Vec3 (line_pos len n_x (i + 1)) (line_pos width n_y j) z)
           (Vec3 (line_pos len n_x (i + 1)) (line_pos width n_y (j + 1)) z))
         [0..<n_y] mesh)
       [0..<n_x] []"

section \<open>The wave mesh\<close>

text \<open>
  The callback \<^verbatim>\<open>wave_grid_conf\<close> of the source: for each quad it emits the six vertices
  \<open>ll, ur, ul, ur, ll, lr\<close>; vertex \<open>i\<close> gets its own position and the three positions of
  its triangle \<open>i / 3\<close>.
\<close>

definition wave_grid_conf ::
  "vertex list \<Rightarrow> nat \<Rightarrow> nat \<Rightarrow> nat \<Rightarrow> nat \<Rightarrow> vec3 \<Rightarrow> vec3 \<Rightarrow> vec3 \<Rightarrow> vec3 \<Rightarrow> vertex list" where
  "wave_grid_conf mesh x y n_x n_y ul ll ur lr =
     (let t = [ll, ur, ul, ur, ll, lr] in
      fold (\<lambda>i mesh.
              set_attrib 3 (t ! (3 * (i div 3) + 2))
                (set_attrib 2 (t ! (3 * (i div 3) + 1))
                  (set_attrib 1 (t ! (3 * (i div 3)))
                    (set_attrib 0 (t ! i) (next_vertex mesh)))))
           [0..<6] mesh)"

text \<open>
  The members of \<^verbatim>\<open>WaveMesh\<close>; a member \<^verbatim>\<open>x_\<close> of the source is the field \<open>x_m\<close>.
  Of \<^verbatim>\<open>mesh_\<close> only the vertex store is kept; the shader
  program and the member \<^verbatim>\<open>wave_fill_\<close>, which the source never initialises or reads,
  are left out.
\<close>

record WaveMesh =
  vertices :: "vertex list"
  length_m :: double
  width_m :: double
  nlength_m :: nat
  nwidth_m :: nat
  wave_k_m :: double
  wave_period_m :: double
  wave_full_period_m :: double
  wave_velocity_m :: double
  displacement_m :: "double list"

definition create_mesh :: "WaveMesh \<Rightarrow> WaveMesh" where
  "create_mesh m =
     m\<lparr>vertices := make_grid (nlength_m m) (nwidth_m m) (length_m m) (width_m m) (Fin 0) wave_grid_conf\<rparr>"

text \<open>
  The constructor: the member initialisers in the order of the source, then
  \<^verbatim>\<open>create_mesh\<close> (the parameter \<^verbatim>\<open>length\<close> of the source is \<open>len\<close> here). The
  vector \<^verbatim>\<open>displacement_(nlength + 1)\<close> is value-initialised: it holds \<open>nlength + 1\<close> zeros.
\<close>

definition WaveMesh_init ::
  "double \<Rightarrow> double \<Rightarrow> nat \<Rightarrow> nat \<Rightarrow> double \<Rightarrow> double \<Rightarrow> WaveMesh" where
  "WaveMesh_init len width nlength nwidth wavelength duty_cycle =
     (let wave_k = Fin 2 * M_PI / (wavelength * len);
          wave_period = Fin 2 * M_PI / wave_k;
          wave_full_period = wave_period / duty_cycle
      in \<lparr>vertices = [],
          length_m = len, width_m = width, nlength_m = nlength, nwidth_m = nwidth,
          wave_k_m = wave_k, wave_period_m = wave_period,
          wave_full_period_m = wave_full_period,
          wave_velocity_m = Fin 0.1 * len,
          displacement_m = replicate (sz_add nlength 1) (Fin 0)\<rparr>)"

definition WaveMesh_new ::
  "double \<Rightarrow> double \<Rightarrow> nat \<Rightarrow> nat \<Rightarrow> double \<Rightarrow> double \<Rightarrow> WaveMesh" where
  "WaveMesh_new len width nlength nwidth wavelength duty_cycle =
     create_mesh (WaveMesh_init len width nlength nwidth wavelength duty_cycle)"

text \<open>
  \<^verbatim>\<open>vertex_length_index\<close>: an integer division by zero is undefined behaviour, the value
  \<open>None\<close>.
\<close>

definition vertex_length_index :: "WaveMesh \<Rightarrow> nat \<Rightarrow> nat option" where
  "vertex_length_index m v =
     (if sz_mul 6 (nwidth_m m) = 0 then None
      else Some (sz_add (v div sz_mul 6 (nwidth_m m)) (v mod 2)))"

definition wave_func :: "WaveMesh \<Rightarrow> double \<Rightarrow> double" where
  "wave_func m x =
     (let r = fmod x (wave_full_period_m m);
          r = (if r < Fin 0 then r + wave_full_period_m m else r)
      in if r > wave_period_m m then Fin 0
         else Fin 0.2 * dsin (wave_k_m m * r))"

definition displacement :: "WaveMesh \<Rightarrow> nat \<Rightarrow> double \<Rightarrow> double" where
  "displacement m n elapsed =
     (let x = of_size_t n * length_m m / of_size_t (nlength_m m)
      in wave_func m (x - wave_velocity_m m * elapsed))"

subsection \<open>update\<close>

text \<open>
  The body of \<^verbatim>\<open>if (d != displacement_[n])\<close>: the last range is extended when it ends at
  \<open>n - 1\<close>, otherwise a new range \<open>(n > 0 ? n - 1 : 0, n)\<close> is pushed.
\<close>

definition push_index :: "(nat \<times> nat) list \<Rightarrow> nat \<Rightarrow> (nat \<times> nat) list" where
  "push_index ranges n =
     (if ranges \<noteq> [] \<and> snd (last ranges) = sz_sub n 1
      then butlast ranges @ [(fst (last ranges), n)]
      else ranges @ [(if n > 0 then sz_sub n 1 else 0, n)])"

text \<open>The first loop of \<^verbatim>\<open>update\<close>, from the counter \<open>n\<close> on.\<close>

function detect_ranges ::
  "WaveMesh \<Rightarrow> double \<Rightarrow> nat \<Rightarrow> (nat \<times> nat) list \<Rightarrow> ((nat \<times> nat) list \<times> WaveMesh) option" where
  "detect_ranges m elapsed n ranges =
     (if n \<le> nlength_m m then
        (case vec_at (displacement_m m) n of
           None \<Rightarrow> None
         | Some old \<Rightarrow>
             let d = displacement m n elapsed;
                 ranges = (if dne d old then push_index ranges n else ranges)
             in detect_ranges (m\<lparr>displacement_m := (displacement_m m)[n := d]\<rparr>) elapsed (n + 1) ranges)
      else Some (ranges, m))"
  by pat_completeness auto
termination
  by (relation "measure (\<lambda>(m, elapsed, n, ranges). length (displacement_m m) - n)")
     (auto simp: vec_at_def split: if_splits)

text \<open>The bounds \<^verbatim>\<open>vstart\<close> and \<^verbatim>\<open>vend\<close> of the vertices of a length index range.\<close>

definition vstart_of :: "WaveMesh \<Rightarrow> nat \<Rightarrow> nat" where
  "vstart_of m first = sz_add (sz_mul (sz_mul first (nwidth_m m)) 6) (first mod 2)"

definition vend_of :: "WaveMesh \<Rightarrow> nat \<Rightarrow> nat" where
  "vend_of m second =
     sz_mul (sz_mul (sz_add second (if second < nlength_m m then 1 else 0)) (nwidth_m m)) 6"

text \<open>
  The body of the loop over the vertices \<open>v\<close> of one range: the z components of the four
  positions of the vertex \<open>v\<close> are written.
\<close>

definition rewrite_vertex :: "WaveMesh \<Rightarrow> nat \<Rightarrow> vertex list \<Rightarrow> vertex list option" where
  "rewrite_vertex m v vs =
     (let vt = 3 * (v div 3) in
      do {
        i0 \<leftarrow> vertex_length_index m v;
        d0 \<leftarrow> vec_at (displacement_m m) i0;
        vs \<leftarrow> vec_put vs v (0 * 3 + 2) d0;
        i1 \<leftarrow> vertex_length_index m vt;
        d1 \<leftarrow> vec_at (displacement_m m) i1;
        vs \<leftarrow> vec_put vs v (1 * 3 + 2) d1;
        i2 \<leftarrow> vertex_length_index m (sz_add vt 1);
        d2 \<leftarrow> vec_at (displacement_m m) i2;
        vs \<leftarrow> vec_put vs v (2 * 3 + 2) d2;
        i3 \<leftarrow> vertex_length_index m (sz_add vt 2);
        d3 \<leftarrow> vec_at (displacement_m m) i3;
        vec_put vs v (3 * 3 + 2) d3
      })"

text \<open>The loop over the vertices \<open>v\<close> of one range, from the counter \<open>v\<close> on.\<close>

function rewrite_vertices ::
  "WaveMesh \<Rightarrow> nat \<Rightarrow> nat \<Rightarrow> vertex list \<Rightarrow> vertex list option" where
  "rewrite_vertices m v vend vs =
     (if v < vend then
        (case rewrite_vertex m v vs of
           None \<Rightarrow> None
         | Some vs' \<Rightarrow> rewrite_vertices m (v + 1) vend vs')
      else Some vs)"
  by pat_completeness auto
termination
  by (relation "measure (\<lambda>(m, v, vend, vs). vend - v)") auto

text \<open>
  The second loop of \<^verbatim>\<open>update\<close>: each range is rewritten and replaced by the pair
  \<open>(vstart, vend - 1)\<close>. The result is the vertex store and the list of replaced pairs.
\<close>

fun rewrite_ranges ::
  "WaveMesh \<Rightarrow> (nat \<times> nat) list \<Rightarrow> vertex list \<Rightarrow> (vertex list \<times> (nat \<times> nat) list) option" where
  "rewrite_ranges m [] vs = Some (vs, [])"
| "rewrite_ranges m ((first, second) # rest) vs =
     (case rewrite_vertices m (vstart_of m first) (vend_of m second) vs of
        None \<Rightarrow> None
      | Some vs' \<Rightarrow>
          (case rewrite_ranges m rest vs' of
             None \<Rightarrow> None
           | Some (vs'', out) \<Rightarrow> Some (vs'', (vstart_of m first, sz_sub (vend_of m second) 1) # out)))"

text \<open>
  \<^verbatim>\<open>update\<close> returns the new state and the list of vertex ranges that it passes to
  \<^verbatim>\<open>mesh_.update_vbo\<close>.
\<close>

definition update :: "WaveMesh \<Rightarrow> double \<Rightarrow> (WaveMesh \<times> (nat \<times> nat) list) option" where
  "update m elapsed =
     (case detect_ranges m elapsed 0 [] of
        None \<Rightarrow> None
      | Some (ranges, m1) \<Rightarrow>
          (case rewrite_ranges m1 ranges (vertices m1) of
             None \<Rightarrow> None
           | Some (vs, forwarded) \<Rightarrow> Some (m1\<lparr>vertices := vs\<rparr>, forwarded)))"

section \<open>Auxiliary definitions\<close>

text \<open>The floats of a position, and the six vertices that \<^verbatim>\<open>wave_grid_conf\<close> emits for a quad.\<close>

definition vec3_floats :: "vec3 \<Rightarrow> double list" where
  "vec3_floats p = (case p of Vec3 x y z \<Rightarrow> [x, y, z])"

definition quad_vertices :: "vec3 \<Rightarrow> vec3 \<Rightarrow> vec3 \<Rightarrow> vec3 \<Rightarrow> vertex list" where
  "quad_vertices ul ll ur lr =
     [vec3_floats ll @ vec3_floats ll @ vec3_floats ur @ vec3_floats ul,
      vec3_floats ur @ vec3_floats ll @ vec3_floats ur @ vec3_floats ul,
      vec3_floats ul @ vec3_floats ll @ vec3_floats ur @ vec3_floats ul,
      vec3_floats ur @ vec3_floats ur @ vec3_floats ll @ vec3_floats lr,
      vec3_floats ll @ vec3_floats ur @ vec3_floats ll @ vec3_floats lr,
      vec3_floats lr @ vec3_floats ur @ vec3_floats ll @ vec3_floats lr]"

definition grid_quad :: "nat \<Rightarrow> nat \<Rightarrow> double \<Rightarrow> double \<Rightarrow> double \<Rightarrow> nat \<Rightarrow> nat \<Rightarrow> vertex list" where
  "grid_quad n_x n_y len width z i j =
     quad_vertices
       (Vec3 (line_pos len n_x i) (line_pos width n_y j) z)
       (Vec3 (line_pos len n_x i) (line_pos width n_y (j + 1)) z)
       (Vec3 (line_pos len n_x (i + 1)) (line_pos width n_y j) z)
       (Vec3 (line_pos len n_x (i + 1)) (line_pos width n_y (j + 1)) z)"

text \<open>
  The configuration of the end-to-end scenario of the specification: \<open>length = 4\<close>,
  \<open>width = 1\<close>, \<open>nlength = 4\<close>, \<open>nwidth = 1\<close>, \<open>wavelength = 1\<close>, \<open>duty_cycle = 1\<close>.
\<close>

definition scenario :: WaveMesh where
  "scenario = WaveMesh_new (Fin 4) (Fin 1) 4 1 (Fin 1) (Fin 1)"

text \<open>
  A configuration with wave packets: \<open>length = 4\<close>, \<open>width = 1\<close>, \<open>nlength = 4\<close>,
  \<open>nwidth = 1\<close>, \<open>wavelength = 1/4\<close>, \<open>duty_cycle = 1/2\<close>, so that the period is 1 and the
  full period is 2. At the elapsed time 0.625 the wave has moved by 0.25: the odd length
  lines lie inside a packet, at three quarters of the period, and the even ones in the
  flat region between two packets.
\<close>

definition packets :: WaveMesh where
  "packets = WaveMesh_new (Fin 4) (Fin 1) 4 1 (Fin (1 / 4)) (Fin (1 / 2))"

text \<open>
  Whether the displacement of the length index \<open>n\<close> at the time \<open>elapsed\<close> differs from
  the stored one: the test \<^verbatim>\<open>d != displacement_[n]\<close> of \<^verbatim>\<open>update\<close>.
\<close>

definition changed :: "WaveMesh \<Rightarrow> double \<Rightarrow> nat \<Rightarrow> bool" where
  "changed m elapsed n = dne (displacement m n elapsed) (displacement_m m ! n)"

text \<open>The ranges after the length indices below \<open>k\<close>, for the changed indices \<open>c\<close>.\<close>

primrec scan :: "(nat \<Rightarrow> bool) \<Rightarrow> nat \<Rightarrow> (nat \<times> nat) list" where
  "scan c 0 = []"
| "scan c (Suc k) = (if c k then push_index (scan c k) k else scan c k)"

text \<open>
  The invariant of the first loop before the length index \<open>k\<close>: every range ends below
  \<open>k\<close> at a changed index, has more than one index unless it is \<open>(0, 0)\<close>, and all its
  indices after the first are changed; each range starts after the one before ends; and
  every changed index below \<open>k\<close> lies in a range.
\<close>

definition ranges_inv :: "(nat \<Rightarrow> bool) \<Rightarrow> nat \<Rightarrow> (nat \<times> nat) list \<Rightarrow> bool" where
  "ranges_inv c k rs \<longleftrightarrow>
     (\<forall>r \<in> set rs. snd r < k \<and> (fst r < snd r \<or> r = (0, 0)) \<and> c (snd r) \<and>
        (\<forall>i. fst r < i \<and> i \<le> snd r \<longrightarrow> c i)) \<and>
     sorted_wrt (\<lambda>a b. snd a < fst b) rs \<and>
     (\<forall>i < k. c i \<longrightarrow> (\<exists>r \<in> set rs. fst r \<le> i \<and> i \<le> snd r))"

text \<open>The stored displacements after the length indices from \<open>n\<close> to \<open>nlength\<close>.\<close>

definition stored :: "WaveMesh \<Rightarrow> double \<Rightarrow> nat \<Rightarrow> double list" where
  "stored m elapsed n =
     fold (\<lambda>k d. d[k := displacement m k elapsed]) [n..<Suc (nlength_m m)] (displacement_m m)"

text \<open>
  The shape of the state that the constructor builds and \<^verbatim>\<open>update\<close> keeps: at least one
  subdivision each way, a vertex count that fits \<^verbatim>\<open>size_t\<close>, \<open>nlength + 1\<close> stored
  displacements and \<open>nlength * nwidth * 6\<close> vertices of 12 floats.
\<close>

definition store_ok :: "nat \<Rightarrow> vertex list \<Rightarrow> bool" where
  "store_ok N vs \<longleftrightarrow> length vs = N \<and> (\<forall>u < N. length (vs ! u) = 12)"

definition shape_ok :: "WaveMesh \<Rightarrow> bool" where
  "shape_ok m \<longleftrightarrow>
     1 \<le> nlength_m m \<and> 1 \<le> nwidth_m m \<and> nlength_m m * nwidth_m m * 6 < 2 ^ 64 \<and>
     length (displacement_m m) = nlength_m m + 1 \<and>
     store_ok (nlength_m m * nwidth_m m * 6) (vertices m)"

declare rewrite_vertices.simps [simp del]

text \<open>A double that is a finite number.\<close>

fun is_finite :: "double \<Rightarrow> bool" where
  "is_finite (Fin x) = True"
| "is_finite PInf = False"
| "is_finite MInf = False"
| "is_finite NaN = False"

text \<open>
  The wave parameters of a valid configuration: at least one subdivision along the
  length, and a length, a wave number, a full period and a velocity that are finite
  numbers, the full period not zero.
\<close>

definition wave_ok :: "WaveMesh \<Rightarrow> bool" where
  "wave_ok m \<longleftrightarrow>
     0 < nlength_m m \<and> is_finite (length_m m) \<and> is_finite (wave_k_m m) \<and>
     is_finite (wave_full_period_m m) \<and> wave_full_period_m m \<noteq> Fin 0 \<and>
     is_finite (wave_velocity_m m)"



section \<open>Arithmetic of size\_t without wrap-around\<close>

lemma sz_add_less: "a + b < 2 ^ 64 \<Longrightarrow> sz_add a b = a + b"
  by (simp add: sz_add_def)

lemma sz_mul_less: "a * b < 2 ^ 64 \<Longrightarrow> sz_mul a b = a * b"
  by (simp add: sz_mul_def)

lemma sz_sub_less:
  assumes "b \<le> a" and "a < 2 ^ 64"
  shows "sz_sub a b = a - b"
proof -
  have "a + 2 ^ 64 - b = (a - b) + 2 ^ 64"
    using assms(1) by (rule Nat.diff_add_assoc2)
  then have "sz_sub a b = ((a - b) + 2 ^ 64) mod 2 ^ 64"
    unfolding sz_sub_def by (rule arg_cong)
  also have "\<dots> = (a - b) mod 2 ^ 64"
    by (rule mod_add_self2)
  also have "\<dots> = a - b"
    using assms(2) by (intro mod_less) (rule le_less_trans [OF diff_le_self])
  finally show ?thesis .
qed

lemma grid_bounds:
  fixes a nl nw B :: nat
  assumes "0 < nw" and "nl * nw * 6 < B" and "a \<le> nl"
  shows "a * nw * 6 < B" and "a * nw < B" and "a < B"
proof -
  have 1: "a * nw \<le> nl * nw" using assms(3) by (rule mult_le_mono1)
  then have 2: "a * nw * 6 \<le> nl * nw * 6" by (rule mult_le_mono1)
  have 3: "a * 1 \<le> a * nw" using assms(1) by (intro mult_le_mono2) simp
  have 4: "a * nw \<le> a * nw * 6" by simp
  show "a * nw * 6 < B" using 2 assms(2) by (rule le_less_trans)
  show "a * nw < B" using 4 2 assms(2) by linarith
  show "a < B" using 3 4 2 assms(2) by linarith
qed

text \<open>The two bounds and the index formula without the wrap-around.\<close>

lemma vend_of_plain:
  assumes "0 < nwidth_m m" and "nlength_m m * nwidth_m m * 6 < 2 ^ 64"
    and "second \<le> nlength_m m"
  shows "vend_of m second =
         (second + (if second < nlength_m m then 1 else 0)) * nwidth_m m * 6"
proof -
  let ?e = "if second < nlength_m m then 1 else (0::nat)"
  have le: "second + ?e \<le> nlength_m m" using assms(3) by simp
  note b = grid_bounds [OF assms(1) assms(2) le]
  show ?thesis
    unfolding vend_of_def
    by (simp only: sz_add_less [OF b(3)] sz_mul_less [OF b(2)] sz_mul_less [OF b(1)])
qed

lemma vstart_of_plain:
  assumes "0 < nwidth_m m" and "nlength_m m * nwidth_m m * 6 < 2 ^ 64"
    and "first \<le> nlength_m m"
  shows "vstart_of m first = first * nwidth_m m * 6 + first mod 2"
proof -
  note b = grid_bounds [OF assms]
  have "odd (first * nwidth_m m * 6 + 1)" by simp
  moreover have "even ((2::nat) ^ 64)" by simp
  ultimately have "first * nwidth_m m * 6 + 1 \<noteq> 2 ^ 64" by metis
  then have "first * nwidth_m m * 6 + 1 < 2 ^ 64"
    using b(1) by linarith
  moreover have "first mod 2 \<le> 1" by simp
  ultimately have "first * nwidth_m m * 6 + first mod 2 < 2 ^ 64"
    by linarith
  then show ?thesis
    unfolding vstart_of_def
    by (simp only: sz_mul_less [OF b(2)] sz_mul_less [OF b(1)] sz_add_less)
qed

lemma vertex_length_index_plain:
  assumes "0 < nwidth_m m" and "nlength_m m * nwidth_m m * 6 < 2 ^ 64"
    and "v < nlength_m m * nwidth_m m * 6"
  shows "vertex_length_index m v = Some (v div (6 * nwidth_m m) + v mod 2)"
    and "v div (6 * nwidth_m m) + v mod 2 \<le> nlength_m m"
proof -
  have nl: "1 \<le> nlength_m m" using assms(3) by (cases "nlength_m m") simp_all
  note b = grid_bounds [OF assms(1) assms(2) nl]
  have k: "sz_mul 6 (nwidth_m m) = 6 * nwidth_m m"
    using b(1) by (intro sz_mul_less) (simp add: mult.commute)
  have "v < nlength_m m * (6 * nwidth_m m)"
    using assms(3) by (simp add: mult_ac)
  then have d: "v div (6 * nwidth_m m) < nlength_m m"
    using assms(1) by (simp add: less_mult_imp_div_less)
  have "v mod 2 \<le> 1" by simp
  with d show le: "v div (6 * nwidth_m m) + v mod 2 \<le> nlength_m m"
    by linarith
  have "nlength_m m < 2 ^ 64"
    using grid_bounds(3) [OF assms(1) assms(2) le_refl] .
  then have "sz_add (v div (6 * nwidth_m m)) (v mod 2) = v div (6 * nwidth_m m) + v mod 2"
    using le by (intro sz_add_less) simp
  then show "vertex_length_index m v = Some (v div (6 * nwidth_m m) + v mod 2)"
    using assms(1) by (simp add: vertex_length_index_def k)
qed

section \<open>The grid\<close>

lemma emit_vertex:
  "set_attrib 3 d (set_attrib 2 c (set_attrib 1 b (set_attrib 0 a (next_vertex mesh)))) =
   mesh @ [vec3_floats a @ vec3_floats b @ vec3_floats c @ vec3_floats d]"
  by (cases a; cases b; cases c; cases d)
     (simp add: next_vertex_def vec3_floats_def eval_nat_numeral)

lemma upt_6: "[0..<6] = [0, 1, 2, 3, 4, 5]"
  by (simp add: eval_nat_numeral upt_rec)

lemma wave_grid_conf_append:
  "wave_grid_conf mesh x y n_x n_y ul ll ur lr = mesh @ quad_vertices ul ll ur lr"
proof -
  let ?t = "[ll, ur, ul, ur, ll, lr]"
  have t: "?t ! 0 = ll" "?t ! 1 = ur" "?t ! 2 = ul" "?t ! 3 = ur" "?t ! 4 = ll" "?t ! 5 = lr"
    by (simp_all add: eval_nat_numeral)
  have d: "(0::nat) div 3 = 0" "(1::nat) div 3 = 0" "(2::nat) div 3 = 0"
          "(3::nat) div 3 = 1" "(4::nat) div 3 = 1" "(5::nat) div 3 = 1"
    by simp_all
  have a: "3 * (0::nat) = 0" "3 * (1::nat) = 3" "(0::nat) + 1 = 1" "(0::nat) + 2 = 2"
          "(3::nat) + 1 = 4" "(3::nat) + 2 = 5"
    by simp_all
  show ?thesis
    unfolding wave_grid_conf_def Let_def upt_6 fold_simps d a t emit_vertex quad_vertices_def
    by (simp only: append_assoc append_Cons append_Nil)
qed

lemma fold_append_concat:
  "fold (\<lambda>x acc. acc @ f x) xs init = init @ concat (map f xs)"
  by (induction xs arbitrary: init) simp_all

lemma make_grid_concat:
  "make_grid n_x n_y len width z wave_grid_conf =
   concat (map (\<lambda>i. concat (map (grid_quad n_x n_y len width z i) [0..<n_y])) [0..<n_x])"
  by (simp add: make_grid_def wave_grid_conf_append fold_append_concat grid_quad_def [abs_def])

lemma nth_concat_uniform:
  assumes "\<forall>xs \<in> set xss. length xs = k" and "i < k * length xss"
  shows "concat xss ! i = xss ! (i div k) ! (i mod k)"
  using assms
proof (induction xss arbitrary: i)
  case Nil
  then show ?case by simp
next
  case (Cons xs xss)
  have k: "length xs = k" using Cons.prems(1) by simp
  have kpos: "0 < k" using Cons.prems(2) by (cases k) simp_all
  show ?case
  proof (cases "i < k")
    case True
    then show ?thesis by (simp add: nth_append k)
  next
    case False
    then have ik: "k \<le> i" by simp
    have "i - k < k * length xss" using Cons.prems(2) ik by simp
    then have "concat xss ! (i - k) = xss ! ((i - k) div k) ! ((i - k) mod k)"
      using Cons.IH Cons.prems(1) by simp
    moreover have "i div k = Suc ((i - k) div k)"
      using ik kpos by (simp add: le_div_geq)
    moreover have "(i - k) mod k = i mod k"
      using ik by (simp add: le_mod_geq)
    ultimately show ?thesis
      using False by (simp add: nth_append k)
  qed
qed

lemma length_concat_uniform:
  "\<forall>xs \<in> set xss. length xs = k \<Longrightarrow> length (concat xss) = k * length xss"
  by (induction xss) simp_all

lemma length_quad_vertices: "length (quad_vertices ul ll ur lr) = 6"
  by (simp add: quad_vertices_def)

lemma length_grid_row:
  "length (concat (map (grid_quad n_x n_y len width z i) [0..<n_y])) = 6 * n_y"
  by (simp add: length_concat_uniform [where k = 6] grid_quad_def length_quad_vertices)

lemma length_make_grid:
  "length (make_grid n_x n_y len width z wave_grid_conf) = n_x * n_y * 6"
  by (simp add: make_grid_concat length_concat_uniform [where k = "6 * n_y"] length_grid_row)

lemma make_grid_nth:
  assumes "v < n_x * n_y * 6"
  shows "make_grid n_x n_y len width z wave_grid_conf ! v =
         grid_quad n_x n_y len width z (v div (6 * n_y)) ((v mod (6 * n_y)) div 6) ! (v mod 6)"
proof -
  let ?row = "\<lambda>i. concat (map (grid_quad n_x n_y len width z i) [0..<n_y])"
  have ny: "0 < n_y" using assms by (cases n_y) simp_all
  have i: "v div (6 * n_y) < n_x"
    using assms ny by (simp add: less_mult_imp_div_less mult.commute mult.left_commute)
  have j: "v mod (6 * n_y) < 6 * n_y" using ny by simp
  have "make_grid n_x n_y len width z wave_grid_conf ! v =
        map ?row [0..<n_x] ! (v div (6 * n_y)) ! (v mod (6 * n_y))"
    unfolding make_grid_concat
    by (rule nth_concat_uniform) (use assms in \<open>auto simp: length_grid_row mult_ac\<close>)
  also have "\<dots> = ?row (v div (6 * n_y)) ! (v mod (6 * n_y))"
    using i by simp
  also have "\<dots> = map (grid_quad n_x n_y len width z (v div (6 * n_y))) [0..<n_y]
                      ! ((v mod (6 * n_y)) div 6) ! ((v mod (6 * n_y)) mod 6)"
    by (rule nth_concat_uniform) (use j in \<open>auto simp: grid_quad_def length_quad_vertices\<close>)
  also have "(v mod (6 * n_y)) mod 6 = v mod 6"
    by (simp add: mod_mult2_eq)
  also have "map (grid_quad n_x n_y len width z (v div (6 * n_y))) [0..<n_y] ! ((v mod (6 * n_y)) div 6)
             = grid_quad n_x n_y len width z (v div (6 * n_y)) ((v mod (6 * n_y)) div 6)"
    using j by (simp add: less_mult_imp_div_less mult.commute)
  finally show ?thesis .
qed

subsection \<open>The constructed mesh and the vertices of a quad\<close>

lemma WaveMesh_new_fields:
  "nlength_m (WaveMesh_new len width nlength nwidth wavelength duty_cycle) = nlength"
  "nwidth_m (WaveMesh_new len width nlength nwidth wavelength duty_cycle) = nwidth"
  "length_m (WaveMesh_new len width nlength nwidth wavelength duty_cycle) = len"
  "width_m (WaveMesh_new len width nlength nwidth wavelength duty_cycle) = width"
  "wave_k_m (WaveMesh_new len width nlength nwidth wavelength duty_cycle) =
     Fin 2 * M_PI / (wavelength * len)"
  "wave_period_m (WaveMesh_new len width nlength nwidth wavelength duty_cycle) =
     Fin 2 * M_PI / (Fin 2 * M_PI / (wavelength * len))"
  "wave_full_period_m (WaveMesh_new len width nlength nwidth wavelength duty_cycle) =
     Fin 2 * M_PI / (Fin 2 * M_PI / (wavelength * len)) / duty_cycle"
  "wave_velocity_m (WaveMesh_new len width nlength nwidth wavelength duty_cycle) = Fin 0.1 * len"
  "displacement_m (WaveMesh_new len width nlength nwidth wavelength duty_cycle) =
     replicate (sz_add nlength 1) (Fin 0)"
  "vertices (WaveMesh_new len width nlength nwidth wavelength duty_cycle) =
     make_grid nlength nwidth len width (Fin 0) wave_grid_conf"
  by (simp_all add: WaveMesh_new_def create_mesh_def WaveMesh_init_def Let_def)

lemma scenario_sizes:
  "nlength_m scenario = 4" "nwidth_m scenario = 1"
  "displacement_m scenario = replicate 5 (Fin 0)"
  by (simp_all add: scenario_def WaveMesh_new_fields sz_add_def)

lemma below_6_cases:
  assumes "p < (6::nat)"
  obtains "p = 0" | "p = 1" | "p = 2" | "p = 3" | "p = 4" | "p = 5"
  using assms by linarith

lemma grid_quad_own_x:
  assumes "p < 6"
  shows "grid_quad n_x n_y len width z i j ! p ! 0 = line_pos len n_x (i + p mod 2)"
  using assms
  by (rule below_6_cases) (simp_all add: grid_quad_def quad_vertices_def vec3_floats_def)

lemma grid_quad_length:
  assumes "p < 6"
  shows "length (grid_quad n_x n_y len width z i j ! p) = 12"
  using assms
  by (rule below_6_cases) (simp_all add: grid_quad_def quad_vertices_def vec3_floats_def)


section \<open>The vertices of a length index range\<close>

text \<open>
  Claim C4, as amended. For a length index range \<open>[lo, hi]\<close> of a grid with
  \<open>nwidth \<ge> 1\<close> whose vertex count fits \<^verbatim>\<open>size_t\<close>, every vertex \<open>v\<close> with
  \<open>vstart \<le> v < vend\<close> has a length index between \<open>lo\<close> and \<open>hi + 1\<close> when
  \<open>hi < nlength\<close>, and between \<open>lo\<close> and \<open>hi\<close> when \<open>hi = nlength\<close>: the range also takes
  the row of quads after \<open>hi\<close>, whose odd vertices lie on the line \<open>hi + 1\<close>.
\<close>

theorem vertex_range_length_index:
  assumes "0 < nwidth_m m" and "nlength_m m * nwidth_m m * 6 < 2 ^ 64"
    and "lo \<le> hi" and "hi \<le> nlength_m m"
    and "vstart_of m lo \<le> v" and "v < vend_of m hi"
  shows "\<exists>i. vertex_length_index m v = Some i \<and> lo \<le> i \<and>
             i \<le> hi + (if hi < nlength_m m then 1 else 0) \<and> i \<le> nlength_m m"
proof -
  let ?K = "6 * nwidth_m m"
  let ?e = "if hi < nlength_m m then 1 else (0::nat)"
  have K: "0 < ?K" using assms(1) by simp
  have ve: "vend_of m hi = (hi + ?e) * ?K"
    using vend_of_plain [OF assms(1,2,4)] by (simp add: mult_ac)
  have vs: "vstart_of m lo = lo * ?K + lo mod 2"
    using vstart_of_plain [OF assms(1,2) le_trans [OF assms(3,4)]] by (simp add: mult_ac)
  have vlt: "v < (hi + ?e) * ?K" using assms(6) unfolding ve .
  have "hi + ?e \<le> nlength_m m" using assms(4) by simp
  then have "(hi + ?e) * ?K \<le> nlength_m m * ?K" by (rule mult_le_mono1)
  with vlt have "v < nlength_m m * ?K" by (rule less_le_trans)
  moreover have "nlength_m m * ?K = nlength_m m * nwidth_m m * 6" by simp
  ultimately have v: "v < nlength_m m * nwidth_m m * 6" by (simp only:)
  note vli = vertex_length_index_plain [OF assms(1,2) v]
  have "lo * ?K \<le> v" using assms(5) vs by simp
  then have "lo * ?K div ?K \<le> v div ?K" by (rule div_le_mono)
  then have lo: "lo \<le> v div ?K" using K by simp
  from vlt have "v div ?K < hi + ?e"
    using K by (simp add: less_mult_imp_div_less)
  moreover have "v mod 2 \<le> 1" by simp
  ultimately have hi: "v div ?K + v mod 2 \<le> hi + ?e" by linarith
  show ?thesis
    using vli lo hi by (intro exI [of _ "v div ?K + v mod 2"]) simp
qed

lemma scenario_vertex_7:
  "vstart_of scenario 0 = 0" "vend_of scenario 1 = 12"
  "vertex_length_index scenario 7 = Some 2"
  by (simp_all add: vstart_of_def vend_of_def vertex_length_index_def scenario_sizes
      sz_add_def sz_mul_def)

text \<open>
  Claim C4, as stated, fails: in the scenario grid (\<open>nlength = 4\<close>, \<open>nwidth = 1\<close>) the
  range \<open>[0, 1]\<close> becomes the vertices \<open>[0, 12)\<close>, and vertex 7 of it has the length
  index 2.
\<close>

theorem vertex_range_overshoot:
  "vstart_of scenario 0 \<le> 7 \<and> 7 < vend_of scenario 1 \<and>
   vertex_length_index scenario 7 = Some 2 \<and> \<not> (2::nat) \<le> 1"
  using scenario_vertex_7 by simp

text \<open>The amended claim C4 at the same vertex of the scenario grid.\<close>

theorem vertex_range_length_index_witness:
  "0 < nwidth_m scenario \<and> nlength_m scenario * nwidth_m scenario * 6 < 2 ^ 64 \<and>
   (0::nat) \<le> 1 \<and> 1 \<le> nlength_m scenario \<and>
   vstart_of scenario 0 \<le> 7 \<and> 7 < vend_of scenario 1 \<and>
   (\<exists>i. vertex_length_index scenario 7 = Some i \<and> 0 \<le> i \<and> i \<le> 2 \<and> i \<le> 4)"
proof -
  have h1: "0 < nwidth_m scenario" by (simp add: scenario_sizes)
  have h2: "nlength_m scenario * nwidth_m scenario * 6 < 2 ^ 64" by (simp add: scenario_sizes)
  have h3: "(0::nat) \<le> 1" by simp
  have h4: "1 \<le> nlength_m scenario" by (simp add: scenario_sizes)
  have h5: "vstart_of scenario 0 \<le> 7" using scenario_vertex_7 by simp
  have h6: "7 < vend_of scenario 1" using scenario_vertex_7 by simp
  show ?thesis
    using vertex_range_length_index [OF h1 h2 h3 h4 h5 h6] h1 h2 h4 h5 h6
    by (simp add: scenario_sizes numeral_2_eq_2)
qed

section \<open>The length index of a vertex\<close>

text \<open>
  Claim C3. In the grid that the constructor builds (with a vertex count that fits
  \<^verbatim>\<open>size_t\<close>), \<^verbatim>\<open>vertex_length_index\<close> gives \<open>v / (6 * nwidth) + v mod 2\<close> for
  every vertex \<open>v\<close>, the vertex lies on the line of that length index (the x coordinate of
  its own position is the position of the line), and this index is the near length index
  \<open>(v / 6) / nwidth\<close> of the quad of \<open>v\<close> at the even positions \<open>v mod 6\<close> of the
  quad and the next one at the odd positions.
\<close>

theorem grid_vertex_length_index:
  assumes "v < nlength * nwidth * 6" and "nlength * nwidth * 6 < 2 ^ 64"
  shows "vertex_length_index (WaveMesh_new len width nlength nwidth wavelength duty_cycle) v =
           Some (v div (6 * nwidth) + v mod 2) \<and>
         vertices (WaveMesh_new len width nlength nwidth wavelength duty_cycle) ! v ! 0 =
           line_pos len nlength (v div (6 * nwidth) + v mod 2) \<and>
         v div (6 * nwidth) + v mod 2 = (v div 6) div nwidth + (v mod 6) mod 2"
proof -
  let ?m = "WaveMesh_new len width nlength nwidth wavelength duty_cycle"
  have nw: "0 < nwidth" using assms(1) by (cases nwidth) simp_all
  have "vertex_length_index ?m v = Some (v div (6 * nwidth_m ?m) + v mod 2)"
    by (rule vertex_length_index_plain) (use assms nw in \<open>simp_all only: WaveMesh_new_fields\<close>)
  then have a: "vertex_length_index ?m v = Some (v div (6 * nwidth) + v mod 2)"
    by (simp only: WaveMesh_new_fields)
  have "v mod 6 < 6" by simp
  then have "vertices ?m ! v ! 0 = line_pos len nlength (v div (6 * nwidth) + v mod 6 mod 2)"
    by (simp only: WaveMesh_new_fields make_grid_nth [OF assms(1)] grid_quad_own_x)
  moreover have m2: "v mod 6 mod 2 = v mod 2"
    by (rule mod_mod_cancel) simp
  ultimately have b: "vertices ?m ! v ! 0 = line_pos len nlength (v div (6 * nwidth) + v mod 2)"
    by (simp only:)
  have "v div (6 * nwidth) = v div 6 div nwidth"
    by (rule div_mult2_eq)
  then have c: "v div (6 * nwidth) + v mod 2 = v div 6 div nwidth + v mod 6 mod 2"
    using m2 by (simp only:)
  show ?thesis using a b c by (intro conjI)
qed

text \<open>Claim C3 at vertex 7 of the scenario grid: it lies on the line 2, at \<open>x = 2\<close>.\<close>

theorem grid_vertex_length_index_witness:
  "(7::nat) < 4 * 1 * 6 \<and> (4::nat) * 1 * 6 < 2 ^ 64 \<and>
   vertex_length_index scenario 7 = Some 2 \<and> vertices scenario ! 7 ! 0 = Fin 2"
proof -
  have h1: "(7::nat) < 4 * 1 * 6" by simp
  have h2: "(4::nat) * 1 * 6 < 2 ^ 64" by simp
  have "line_pos (Fin 4) 4 (Suc (Suc 0)) = Fin 2"
    by (simp add: line_pos_def of_size_t_def)
  then show ?thesis
    using grid_vertex_length_index [OF h1 h2, of "Fin 4" "Fin 1" "Fin 1" "Fin 1"]
    by (simp add: scenario_def)
qed

section \<open>The first loop of update: range detection\<close>

lemma displacement_cong:
  assumes "length_m m' = length_m m" and "nlength_m m' = nlength_m m"
    and "wave_k_m m' = wave_k_m m" and "wave_period_m m' = wave_period_m m"
    and "wave_full_period_m m' = wave_full_period_m m"
    and "wave_velocity_m m' = wave_velocity_m m"
  shows "displacement m' n elapsed = displacement m n elapsed"
  by (simp add: displacement_def wave_func_def Let_def assms)

lemma displacement_store [simp]:
  "displacement (m\<lparr>displacement_m := d\<rparr>) n elapsed = displacement m n elapsed"
  by (rule displacement_cong) simp_all

lemma displacement_vertices [simp]:
  "displacement (m\<lparr>vertices := vs\<rparr>) n elapsed = displacement m n elapsed"
  by (rule displacement_cong) simp_all

declare detect_ranges.simps [simp del]

lemma detect_ranges_step:
  assumes "n \<le> nlength_m m" and "n < length (displacement_m m)"
  shows "detect_ranges m elapsed n ranges =
         detect_ranges (m\<lparr>displacement_m := (displacement_m m)[n := displacement m n elapsed]\<rparr>)
           elapsed (n + 1)
           (if changed m elapsed n then push_index ranges n else ranges)"
  using assms
  by (subst detect_ranges.simps) (simp add: vec_at_def changed_def Let_def)

lemma detect_ranges_stop:
  assumes "nlength_m m < n"
  shows "detect_ranges m elapsed n ranges = Some (ranges, m)"
  using assms by (subst detect_ranges.simps) simp

lemma detect_ranges_out_of_range:
  assumes "n \<le> nlength_m m" and "length (displacement_m m) \<le> n"
  shows "detect_ranges m elapsed n ranges = None"
  using assms by (subst detect_ranges.simps) (simp add: vec_at_def)

text \<open>The first loop as two folds over the length indices that are left.\<close>

lemma detect_ranges_fold:
  assumes "nlength_m m < length (displacement_m m)"
  shows "detect_ranges m elapsed n ranges =
         Some (fold (\<lambda>k rs. if changed m elapsed k then push_index rs k else rs)
                 [n..<Suc (nlength_m m)] ranges,
               m\<lparr>displacement_m := stored m elapsed n\<rparr>)"
  using assms
proof (induction m elapsed n ranges rule: detect_ranges.induct)
  case (1 m elapsed n ranges)
  show ?case
  proof (cases "n \<le> nlength_m m")
    case False
    then show ?thesis
      by (simp add: detect_ranges_stop stored_def)
  next
    case True
    let ?d = "displacement m n elapsed"
    let ?m1 = "m\<lparr>displacement_m := (displacement_m m)[n := ?d]\<rparr>"
    have n: "n < length (displacement_m m)" using True "1.prems" by simp
    have upt: "[n..<Suc (nlength_m m)] = n # [Suc n..<Suc (nlength_m m)]"
      using True by (simp add: upt_conv_Cons)
    have ch: "changed ?m1 elapsed k = changed m elapsed k" if "k \<in> set [Suc n..<Suc (nlength_m m)]" for k
    proof -
      from that have "n \<noteq> k" by auto
      then show ?thesis by (simp add: changed_def)
    qed
    have f: "fold (\<lambda>k rs. if changed ?m1 elapsed k then push_index rs k else rs)
               [Suc n..<Suc (nlength_m m)] rs0 =
             fold (\<lambda>k rs. if changed m elapsed k then push_index rs k else rs)
               [Suc n..<Suc (nlength_m m)] rs0" for rs0
      by (rule fold_cong) (simp_all only: ch)
    have "stored ?m1 elapsed (Suc n) =
          fold (\<lambda>k d. d[k := displacement m k elapsed]) [Suc n..<Suc (nlength_m m)]
            ((displacement_m m)[n := ?d])"
      by (simp add: stored_def del: upt_Suc)
    also have "\<dots> = stored m elapsed n"
      by (simp only: stored_def upt fold_simps o_apply)
    finally have st: "stored ?m1 elapsed (Suc n) = stored m elapsed n" .
    have g: "fold (\<lambda>k rs. if changed m elapsed k then push_index rs k else rs)
               [n..<Suc (nlength_m m)] ranges =
             fold (\<lambda>k rs. if changed m elapsed k then push_index rs k else rs)
               [Suc n..<Suc (nlength_m m)]
               (if changed m elapsed n then push_index ranges n else ranges)"
      by (simp only: upt fold_simps o_apply)
    have "detect_ranges m elapsed n ranges =
          detect_ranges ?m1 elapsed (n + 1) (if changed m elapsed n then push_index ranges n else ranges)"
      using True n by (rule detect_ranges_step)
    also have "\<dots> = Some (fold (\<lambda>k rs. if changed ?m1 elapsed k then push_index rs k else rs)
                 [Suc n..<Suc (nlength_m ?m1)]
                 (if changed m elapsed n then push_index ranges n else ranges),
               ?m1\<lparr>displacement_m := stored ?m1 elapsed (Suc n)\<rparr>)"
      using "1.IH" [OF True, of "displacement_m m ! n" ?d
          "if changed m elapsed n then push_index ranges n else ranges"] n "1.prems"
      by (simp add: vec_at_def changed_def del: upt_Suc)
    finally show ?thesis
      by (simp add: f st g del: upt_Suc)
  qed
qed

lemma fold_upt_scan:
  "fold (\<lambda>k rs. if c k then push_index rs k else rs) [0..<k] [] = scan c k"
  by (induction k) simp_all

lemma detect_ranges_scan:
  assumes "nlength_m m < length (displacement_m m)"
  shows "detect_ranges m elapsed 0 [] =
         Some (scan (changed m elapsed) (Suc (nlength_m m)),
               m\<lparr>displacement_m := stored m elapsed 0\<rparr>)"
  by (simp only: detect_ranges_fold [OF assms] fold_upt_scan)

lemma fold_update_length:
  "length (fold (\<lambda>k d. d[k := g k]) ks d) = length d"
  by (induction ks arbitrary: d) simp_all


lemma length_stored: "length (stored m elapsed n) = length (displacement_m m)"
  by (simp only: stored_def fold_update_length)


lemma push_index_plain:
  assumes "\<forall>r \<in> set rs. snd r < k" and "k < 2 ^ 64"
  shows "push_index rs k =
         (if rs \<noteq> [] \<and> Suc (snd (last rs)) = k
          then butlast rs @ [(fst (last rs), k)] else rs @ [(k - 1, k)])"
proof (cases "k = 0")
  case True
  then have "rs = []" using assms(1) by (cases rs) auto
  then show ?thesis using True by (simp add: push_index_def)
next
  case False
  then have "sz_sub k 1 = k - 1"
    using assms(2) by (intro sz_sub_less) simp_all
  then show ?thesis using False by (auto simp add: push_index_def)
qed

lemma ranges_inv_skip:
  assumes "ranges_inv c k rs" and "\<not> c k"
  shows "ranges_inv c (Suc k) rs"
  unfolding ranges_inv_def
proof (intro conjI ballI allI impI)
  fix i assume "i < Suc k" and "c i"
  then have "i < k" using assms(2) by (cases "i = k") simp_all
  then show "\<exists>r \<in> set rs. fst r \<le> i \<and> i \<le> snd r"
    using assms(1) \<open>c i\<close> by (simp add: ranges_inv_def)
qed (use assms(1) in \<open>auto simp: ranges_inv_def less_Suc_eq\<close>)

lemma ranges_inv_push:
  assumes inv: "ranges_inv c k rs" and ck: "c k" and k: "k < 2 ^ 64"
  shows "ranges_inv c (Suc k) (push_index rs k)"
proof -
  have below: "\<forall>r \<in> set rs. snd r < k"
    using inv by (simp add: ranges_inv_def)
  have le: "fst r \<le> snd r" if "r \<in> set rs" for r
    using inv that by (auto simp: ranges_inv_def)
  have sorted: "sorted_wrt (\<lambda>a b. snd a < fst b) rs"
    using inv by (simp add: ranges_inv_def)
  have cover: "\<exists>r \<in> set rs. fst r \<le> i \<and> i \<le> snd r" if "i < k" and "c i" for i
    using inv that by (simp add: ranges_inv_def)
  have elem: "snd r < k \<and> (fst r < snd r \<or> r = (0, 0)) \<and> c (snd r) \<and>
        (\<forall>i. fst r < i \<and> i \<le> snd r \<longrightarrow> c i)" if "r \<in> set rs" for r
    using inv that by (simp add: ranges_inv_def)
  show ?thesis
  proof (cases "rs \<noteq> [] \<and> Suc (snd (last rs)) = k")
    case True
    define l where "l = last rs"
    define b where "b = butlast rs"
    have rs: "rs = b @ [l]" using True by (simp add: l_def b_def)
    have l: "Suc (snd l) = k" using True by (simp add: l_def)
    have push: "push_index rs k = b @ [(fst l, k)]"
      using True by (simp add: push_index_plain [OF below k] l_def b_def)
    have lin: "l \<in> set rs" and bin: "set b \<subseteq> set rs" using rs by auto
    have sb: "sorted_wrt (\<lambda>a b. snd a < fst b) b" and bl: "\<forall>x \<in> set b. snd x < fst l"
      using sorted unfolding rs by (simp_all add: sorted_wrt_append)
    have new: "(\<forall>i. fst l < i \<and> i \<le> k \<longrightarrow> c i)"
    proof (intro allI impI)
      fix i assume i: "fst l < i \<and> i \<le> k"
      show "c i"
      proof (cases "i = k")
        case True then show ?thesis using ck by simp
      next
        case False
        then have "i \<le> snd l" using i l by simp
        then show ?thesis using elem [OF lin] i by blast
      qed
    qed
    have fl: "fst l < k" using le [OF lin] l by simp
    show ?thesis
      unfolding ranges_inv_def push
    proof (intro conjI)
      show "\<forall>r \<in> set (b @ [(fst l, k)]). snd r < Suc k \<and> (fst r < snd r \<or> r = (0, 0)) \<and>
        c (snd r) \<and> (\<forall>i. fst r < i \<and> i \<le> snd r \<longrightarrow> c i)"
      proof
      fix r assume "r \<in> set (b @ [(fst l, k)])"
      then consider "r \<in> set b" | "r = (fst l, k)" by auto
      then show "snd r < Suc k \<and> (fst r < snd r \<or> r = (0, 0)) \<and> c (snd r) \<and>
        (\<forall>i. fst r < i \<and> i \<le> snd r \<longrightarrow> c i)"
      proof cases
        case 1
        then have "r \<in> set rs" using bin by blast
        from elem [OF this] show ?thesis by (simp add: less_Suc_eq)
      next
        case 2
        then show ?thesis using fl ck new by simp
      qed
    qed
    next
      show "sorted_wrt (\<lambda>a b. snd a < fst b) (b @ [(fst l, k)])"
        using sb bl by (simp add: sorted_wrt_append)
    next
      show "\<forall>i < Suc k. c i \<longrightarrow> (\<exists>r \<in> set (b @ [(fst l, k)]). fst r \<le> i \<and> i \<le> snd r)"
      proof (intro allI impI)
      fix i assume i: "i < Suc k" and ci: "c i"
      show "\<exists>r \<in> set (b @ [(fst l, k)]). fst r \<le> i \<and> i \<le> snd r"
      proof (cases "i = k")
        case True
        then show ?thesis using fl by auto
      next
        case False
        then have "i < k" using i by simp
        from cover [OF this ci] obtain r where r: "r \<in> set rs" "fst r \<le> i" "i \<le> snd r"
          by blast
        then consider "r \<in> set b" | "r = l" unfolding rs by auto
        then show ?thesis
        proof cases
          case 1 then show ?thesis using r by auto
        next
          case 2
          then have "fst l \<le> i" "i \<le> k" using r l by simp_all
          then show ?thesis by auto
        qed
      qed
      qed
    qed
  next
    case False
    have push: "push_index rs k = rs @ [(k - 1, k)]"
      unfolding push_index_plain [OF below k] using False by (rule if_not_P)
    have gap: "snd x < k - 1" if x: "x \<in> set rs" for x
    proof -
      have ne: "rs \<noteq> []" using x by auto
      then have nl: "Suc (snd (last rs)) \<noteq> k" using False by simp
      have rs: "rs = butlast rs @ [last rs]" using ne by simp
      have lin: "last rs \<in> set rs" using ne by simp
      have ll: "snd (last rs) < k" using elem [OF lin] by simp
      consider "x \<in> set (butlast rs)" | "x = last rs"
        using x by (subst (asm) rs) auto
      then show ?thesis
      proof cases
        case 1
        have "\<forall>y \<in> set (butlast rs). snd y < fst (last rs)"
          using sorted by (subst (asm) rs) (simp add: sorted_wrt_append)
        then have "snd x < fst (last rs)" using 1 by blast
        then show ?thesis using le [OF lin] ll by simp
      next
        case 2
        then show ?thesis using ll nl by simp
      qed
    qed
    show ?thesis
      unfolding ranges_inv_def push
    proof (intro conjI)
      show "\<forall>r \<in> set (rs @ [(k - 1, k)]). snd r < Suc k \<and> (fst r < snd r \<or> r = (0, 0)) \<and>
        c (snd r) \<and> (\<forall>i. fst r < i \<and> i \<le> snd r \<longrightarrow> c i)"
      proof
      fix r assume "r \<in> set (rs @ [(k - 1, k)])"
      then consider "r \<in> set rs" | "r = (k - 1, k)" by auto
      then show "snd r < Suc k \<and> (fst r < snd r \<or> r = (0, 0)) \<and> c (snd r) \<and>
        (\<forall>i. fst r < i \<and> i \<le> snd r \<longrightarrow> c i)"
      proof cases
        case 1
        from elem [OF this] show ?thesis by (simp add: less_Suc_eq)
      next
        case 2
        have "\<forall>i. k - 1 < i \<and> i \<le> k \<longrightarrow> c i"
          using ck by (auto simp: le_less)
        then show ?thesis using 2 ck by (cases "k = 0") simp_all
      qed
    qed
    next
      show "sorted_wrt (\<lambda>a b. snd a < fst b) (rs @ [(k - 1, k)])"
        using sorted gap by (simp add: sorted_wrt_append)
    next
      show "\<forall>i < Suc k. c i \<longrightarrow> (\<exists>r \<in> set (rs @ [(k - 1, k)]). fst r \<le> i \<and> i \<le> snd r)"
      proof (intro allI impI)
      fix i assume i: "i < Suc k" and ci: "c i"
      show "\<exists>r \<in> set (rs @ [(k - 1, k)]). fst r \<le> i \<and> i \<le> snd r"
      proof (cases "i = k")
        case True
        then show ?thesis by auto
      next
        case False
        then have "i < k" using i by simp
        from cover [OF this ci] show ?thesis by auto
      qed
      qed
    qed
  qed
qed

lemma ranges_inv_scan:
  assumes "k \<le> 2 ^ 64"
  shows "ranges_inv c k (scan c k)"
  using assms
proof (induction k)
  case 0
  show ?case by (simp add: ranges_inv_def)
next
  case (Suc k)
  then have inv: "ranges_inv c k (scan c k)" and k: "k < 2 ^ 64" by simp_all
  show ?case
  proof (cases "c k")
    case True
    then show ?thesis using ranges_inv_push [OF inv True k] by simp
  next
    case False
    then show ?thesis using ranges_inv_skip [OF inv False] by simp
  qed
qed

section \<open>The displacements of the scenario\<close>



lemma trunc_small:
  assumes "- 1 < q" and "q < 1"
  shows "trunc q = 0"
proof (cases "0 \<le> q")
  case True
  then have "\<lfloor>q\<rfloor> = 0" using assms(2) by (intro floor_unique) simp_all
  then show ?thesis using True by (simp add: trunc_def)
next
  case False
  then have "\<lceil>q\<rceil> = 0" using assms(1) by (intro ceiling_unique) simp_all
  then show ?thesis using False by (simp add: trunc_def)
qed







section \<open>The second loop of update: rewriting the vertices\<close>

lemma rewrite_vertices_unfold:
  "rewrite_vertices m v ve vs =
     (if v < ve then
        (case rewrite_vertex m v vs of
           None \<Rightarrow> None
         | Some vs' \<Rightarrow> rewrite_vertices m (v + 1) ve vs')
      else Some vs)"
  by (rule rewrite_vertices.simps)

lemma vec_put_Some:
  assumes "vec_put vs v k x = Some vs'"
  shows "v < length vs \<and> k < length (vs ! v) \<and> vs' = vs[v := (vs ! v)[k := x]]"
  using assms by (simp add: vec_put_def split: if_splits)

lemma vec_at_Some:
  assumes "vec_at xs i = Some x"
  shows "i < length xs \<and> x = xs ! i"
  using assms by (auto simp add: vec_at_def split: if_splits)

lemma rewrite_vertex_Some:
  assumes "rewrite_vertex m v vs = Some vs'"
  shows "\<exists>d0 d1 d2 d3. v < length vs \<and> 11 < length (vs ! v) \<and>
           vs' = vs[v := (vs ! v)[2 := d0, 5 := d1, 8 := d2, 11 := d3]]"
proof -
  from assms obtain d0 d1 d2 d3 vs1 vs2 vs3 where
    p0: "vec_put vs v (0 * 3 + 2) d0 = Some vs1" and
    p1: "vec_put vs1 v (1 * 3 + 2) d1 = Some vs2" and
    p2: "vec_put vs2 v (2 * 3 + 2) d2 = Some vs3" and
    p3: "vec_put vs3 v (3 * 3 + 2) d3 = Some vs'"
    unfolding rewrite_vertex_def Let_def by (auto simp only: bind_eq_Some_conv)
  have k: "0 * 3 + 2 = (2::nat)" "1 * 3 + 2 = (5::nat)" "2 * 3 + 2 = (8::nat)"
    "3 * 3 + 2 = (11::nat)" by simp_all
  note q0 = vec_put_Some [OF p0 [unfolded k]] and q1 = vec_put_Some [OF p1 [unfolded k]]
    and q2 = vec_put_Some [OF p2 [unfolded k]] and q3 = vec_put_Some [OF p3 [unfolded k]]
  have v: "v < length vs" using q0 by simp
  have "11 < length (vs ! v)" using q0 q1 q2 q3 v by simp
  moreover have "vs' = vs[v := (vs ! v)[2 := d0, 5 := d1, 8 := d2, 11 := d3]]"
    using q0 q1 q2 q3 v by simp
  ultimately show ?thesis using v by blast
qed

lemma rewrite_vertex_frame:
  assumes "rewrite_vertex m v vs = Some vs'"
  shows "length vs' = length vs"
    and "length (vs' ! u) = length (vs ! u)"
    and "u \<noteq> v \<or> (k \<noteq> 2 \<and> k \<noteq> 5 \<and> k \<noteq> 8 \<and> k \<noteq> (11::nat)) \<Longrightarrow> vs' ! u ! k = vs ! u ! k"
proof -
  from rewrite_vertex_Some [OF assms] obtain d0 d1 d2 d3 where
    v: "v < length vs" and eq: "vs' = vs[v := (vs ! v)[2 := d0, 5 := d1, 8 := d2, 11 := d3]]"
    by blast
  show "length vs' = length vs" by (simp add: eq)
  show "length (vs' ! u) = length (vs ! u)"
    using v by (cases "u = v") (simp_all add: eq)
  show "vs' ! u ! k = vs ! u ! k"
    if "u \<noteq> v \<or> (k \<noteq> 2 \<and> k \<noteq> 5 \<and> k \<noteq> 8 \<and> k \<noteq> (11::nat))"
    using v that by (cases "u = v") (auto simp add: eq)
qed

text \<open>What \<^verbatim>\<open>rewrite_vertices\<close> leaves as it is.\<close>

lemma rewrite_vertices_frame:
  assumes "rewrite_vertices m v ve vs = Some vs'"
  shows "length vs' = length vs \<and> (\<forall>u. length (vs' ! u) = length (vs ! u)) \<and>
         (\<forall>u (k::nat). u < v \<or> ve \<le> u \<or> (k \<noteq> 2 \<and> k \<noteq> 5 \<and> k \<noteq> 8 \<and> k \<noteq> 11) \<longrightarrow>
                vs' ! u ! k = vs ! u ! k)"
  using assms
proof (induction m v ve vs rule: rewrite_vertices.induct)
  case (1 m v ve vs)
  show ?case
  proof (cases "v < ve")
    case False
    then show ?thesis using "1.prems" by (subst (asm) rewrite_vertices_unfold) simp
  next
    case True
    from "1.prems" True obtain vs1 where
      b: "rewrite_vertex m v vs = Some vs1" and r: "rewrite_vertices m (v + 1) ve vs1 = Some vs'"
      by (subst (asm) rewrite_vertices_unfold) (auto split: option.splits)
    have ih: "length vs' = length vs1 \<and> (\<forall>u. length (vs' ! u) = length (vs1 ! u)) \<and>
         (\<forall>u (k::nat). u < v + 1 \<or> ve \<le> u \<or> (k \<noteq> 2 \<and> k \<noteq> 5 \<and> k \<noteq> 8 \<and> k \<noteq> 11) \<longrightarrow>
                vs' ! u ! k = vs1 ! u ! k)"
      using "1.IH" [OF True b r] .
    note f = rewrite_vertex_frame [OF b]
    show ?thesis
    proof (intro conjI allI impI)
      show "length vs' = length vs" using ih f(1) by simp
    next
      fix u show "length (vs' ! u) = length (vs ! u)" using ih f(2) by simp
    next
      fix u and k :: nat
      assume a: "u < v \<or> ve \<le> u \<or> (k \<noteq> 2 \<and> k \<noteq> 5 \<and> k \<noteq> 8 \<and> k \<noteq> 11)"
      then have "vs' ! u ! k = vs1 ! u ! k" using ih by auto
      moreover have "u \<noteq> v \<or> (k \<noteq> 2 \<and> k \<noteq> 5 \<and> k \<noteq> 8 \<and> k \<noteq> 11)"
        using a True by auto
      then have "vs1 ! u ! k = vs ! u ! k" by (rule f(3))
      ultimately show "vs' ! u ! k = vs ! u ! k" by simp
    qed
  qed
qed

lemma vec_put_ok:
  assumes "store_ok N vs" and "v < N" and "k < 12"
  shows "vec_put vs v k x = Some (vs[v := (vs ! v)[k := x]])"
    and "store_ok N (vs[v := (vs ! v)[k := x]])"
proof -
  have l: "length vs = N" and lv: "length (vs ! v) = 12"
    using assms(1,2) by (simp_all add: store_ok_def)
  show "vec_put vs v k x = Some (vs[v := (vs ! v)[k := x]])"
    using assms(2,3) l lv by (simp add: vec_put_def)
  show "store_ok N (vs[v := (vs ! v)[k := x]])"
    unfolding store_ok_def
  proof (intro conjI allI impI)
    show "length (vs[v := (vs ! v)[k := x]]) = N" using l by simp
  next
    fix u assume "u < N"
    then show "length (vs[v := (vs ! v)[k := x]] ! u) = 12"
      using assms(1) l by (cases "u = v") (simp_all add: store_ok_def)
  qed
qed

lemma triangle_bounds:
  fixes v n w :: nat
  assumes "v < n * w * 6"
  shows "3 * (v div 3) < n * w * 6" and "3 * (v div 3) + 1 < n * w * 6"
    and "3 * (v div 3) + 2 < n * w * 6"
proof -
  have "v < (n * w * 2) * 3" using assms by simp
  then have "v div 3 < n * w * 2" by (simp only: less_mult_imp_div_less)
  then have "v div 3 + 1 \<le> n * w * 2" by simp
  then have "3 * (v div 3 + 1) \<le> 3 * (n * w * 2)" by (rule mult_le_mono2)
  then have "3 * (v div 3) + 3 \<le> n * w * 6" by simp
  then show "3 * (v div 3) < n * w * 6" and "3 * (v div 3) + 1 < n * w * 6"
    and "3 * (v div 3) + 2 < n * w * 6" by simp_all
qed

lemma rewrite_vertex_total:
  assumes nw: "0 < nwidth_m m" and fit: "nlength_m m * nwidth_m m * 6 < 2 ^ 64"
    and d: "length (displacement_m m) = nlength_m m + 1"
    and ok: "store_ok (nlength_m m * nwidth_m m * 6) vs"
    and v: "v < nlength_m m * nwidth_m m * 6"
  shows "\<exists>vs'. rewrite_vertex m v vs = Some vs' \<and> store_ok (nlength_m m * nwidth_m m * 6) vs'"
proof -
  let ?N = "nlength_m m * nwidth_m m * 6"
  let ?vt = "3 * (v div 3)"
  note t = triangle_bounds [OF v]
  have a1: "sz_add ?vt 1 = ?vt + 1"
    using t(2) fit by (intro sz_add_less) (rule less_trans)
  have a2: "sz_add ?vt 2 = ?vt + 2"
    using t(3) fit by (intro sz_add_less) (rule less_trans)
  have at: "vec_at (displacement_m m) i = Some (displacement_m m ! i)" if "i \<le> nlength_m m" for i
    using that d by (simp add: vec_at_def)
  note i0 = vertex_length_index_plain [OF nw fit v]
  note i1 = vertex_length_index_plain [OF nw fit t(1)]
  note i2 = vertex_length_index_plain [OF nw fit t(2)]
  note i3 = vertex_length_index_plain [OF nw fit t(3)]
  define d0 where "d0 = displacement_m m ! (v div (6 * nwidth_m m) + v mod 2)"
  define d1 where "d1 = displacement_m m ! (?vt div (6 * nwidth_m m) + ?vt mod 2)"
  define d2 where "d2 = displacement_m m ! ((?vt + 1) div (6 * nwidth_m m) + (?vt + 1) mod 2)"
  define d3 where "d3 = displacement_m m ! ((?vt + 2) div (6 * nwidth_m m) + (?vt + 2) mod 2)"
  define vs1 where "vs1 = vs[v := (vs ! v)[2 := d0]]"
  define vs2 where "vs2 = vs1[v := (vs1 ! v)[5 := d1]]"
  define vs3 where "vs3 = vs2[v := (vs2 ! v)[8 := d2]]"
  define vs4 where "vs4 = vs3[v := (vs3 ! v)[11 := d3]]"
  have p1: "vec_put vs v 2 d0 = Some vs1" and o1: "store_ok ?N vs1"
    using vec_put_ok [OF ok v, of 2 d0] by (simp_all add: vs1_def)
  have p2: "vec_put vs1 v 5 d1 = Some vs2" and o2: "store_ok ?N vs2"
    using vec_put_ok [OF o1 v, of 5 d1] by (simp_all add: vs2_def)
  have p3: "vec_put vs2 v 8 d2 = Some vs3" and o3: "store_ok ?N vs3"
    using vec_put_ok [OF o2 v, of 8 d2] by (simp_all add: vs3_def)
  have p4: "vec_put vs3 v 11 d3 = Some vs4" and o4: "store_ok ?N vs4"
    using vec_put_ok [OF o3 v, of 11 d3] by (simp_all add: vs4_def)
  have k: "0 * 3 + 2 = (2::nat)" "1 * 3 + 2 = (5::nat)" "2 * 3 + 2 = (8::nat)"
    "3 * 3 + 2 = (11::nat)" by simp_all
  have "rewrite_vertex m v vs = Some vs4"
    unfolding rewrite_vertex_def Let_def k a1 a2
    by (simp only: i0(1) i1(1) i2(1) i3(1) at [OF i0(2)] at [OF i1(2)] at [OF i2(2)]
        at [OF i3(2)] bind.bind_lunit p1 p2 p3 p4
        d0_def [symmetric] d1_def [symmetric] d2_def [symmetric] d3_def [symmetric])
  then show ?thesis using o4 by blast
qed

lemma rewrite_vertices_total:
  assumes nw: "0 < nwidth_m m" and fit: "nlength_m m * nwidth_m m * 6 < 2 ^ 64"
    and d: "length (displacement_m m) = nlength_m m + 1"
    and ok: "store_ok (nlength_m m * nwidth_m m * 6) vs"
    and ve: "ve \<le> nlength_m m * nwidth_m m * 6"
  shows "\<exists>vs'. rewrite_vertices m v ve vs = Some vs' \<and>
           store_ok (nlength_m m * nwidth_m m * 6) vs'"
  using ok
proof (induction "ve - v" arbitrary: v vs)
  case 0
  then have "\<not> v < ve" by simp
  then show ?case using "0.prems" by (subst rewrite_vertices_unfold) simp
next
  case (Suc x)
  then have lt: "v < ve" by simp
  then have "v < nlength_m m * nwidth_m m * 6" using ve by simp
  from rewrite_vertex_total [OF nw fit d Suc.prems this] obtain vs1 where
    b: "rewrite_vertex m v vs = Some vs1" and o: "store_ok (nlength_m m * nwidth_m m * 6) vs1"
    by blast
  have "x = ve - (v + 1)" using Suc.hyps(2) by simp
  from Suc.hyps(1) [OF this o] obtain vs' where
    "rewrite_vertices m (v + 1) ve vs1 = Some vs'" "store_ok (nlength_m m * nwidth_m m * 6) vs'"
    by blast
  then show ?case using lt b by (subst rewrite_vertices_unfold) simp
qed

text \<open>The vertex ranges that are passed on, for the length index ranges \<open>rs\<close>.\<close>

lemma rewrite_ranges_frame:
  assumes "rewrite_ranges m rs vs = Some (vs', out)"
  shows "out = map (\<lambda>(lo, hi). (vstart_of m lo, sz_sub (vend_of m hi) 1)) rs \<and>
         length vs' = length vs \<and> (\<forall>u. length (vs' ! u) = length (vs ! u)) \<and>
         (\<forall>u (k::nat).
            (k \<noteq> 2 \<and> k \<noteq> 5 \<and> k \<noteq> 8 \<and> k \<noteq> 11) \<or>
            (\<forall>(lo, hi) \<in> set rs. u < vstart_of m lo \<or> vend_of m hi \<le> u) \<longrightarrow>
            vs' ! u ! k = vs ! u ! k)"
  using assms
proof (induction rs arbitrary: vs vs' out)
  case Nil
  then show ?case by simp
next
  case (Cons r rs)
  obtain lo hi where r: "r = (lo, hi)" by (cases r)
  from Cons.prems obtain vs1 vs2 out2 where
    a: "rewrite_vertices m (vstart_of m lo) (vend_of m hi) vs = Some vs1" and
    b: "rewrite_ranges m rs vs1 = Some (vs2, out2)" and
    c: "vs' = vs2" "out = (vstart_of m lo, sz_sub (vend_of m hi) 1) # out2"
    unfolding r by (auto split: option.splits)
  note f = rewrite_vertices_frame [OF a]
  note ih = Cons.IH [OF b]
  show ?case
  proof (intro conjI allI impI)
    show "out = map (\<lambda>(lo, hi). (vstart_of m lo, sz_sub (vend_of m hi) 1)) (r # rs)"
      using ih c by (simp add: r)
    show "length vs' = length vs" using ih f c by simp
  next
    fix u show "length (vs' ! u) = length (vs ! u)" using ih f c by simp
  next
    fix u and k :: nat
    assume h: "(k \<noteq> 2 \<and> k \<noteq> 5 \<and> k \<noteq> 8 \<and> k \<noteq> 11) \<or>
            (\<forall>(lo, hi) \<in> set (r # rs). u < vstart_of m lo \<or> vend_of m hi \<le> u)"
    then have "vs2 ! u ! k = vs1 ! u ! k" using ih by auto
    moreover have "vs1 ! u ! k = vs ! u ! k" using f h by (auto simp: r)
    ultimately show "vs' ! u ! k = vs ! u ! k" using c by simp
  qed
qed

lemma rewrite_ranges_total:
  assumes nw: "0 < nwidth_m m" and fit: "nlength_m m * nwidth_m m * 6 < 2 ^ 64"
    and d: "length (displacement_m m) = nlength_m m + 1"
    and ok: "store_ok (nlength_m m * nwidth_m m * 6) vs"
    and rs: "\<forall>r \<in> set rs. snd r \<le> nlength_m m"
  shows "\<exists>vs'. rewrite_ranges m rs vs =
           Some (vs', map (\<lambda>(lo, hi). (vstart_of m lo, sz_sub (vend_of m hi) 1)) rs) \<and>
           store_ok (nlength_m m * nwidth_m m * 6) vs'"
  using ok rs
proof (induction rs arbitrary: vs)
  case Nil
  then show ?case by simp
next
  case (Cons r rs)
  obtain lo hi where r: "r = (lo, hi)" by (cases r)
  have hi: "hi \<le> nlength_m m" using Cons.prems(2) by (simp add: r)
  let ?e = "if hi < nlength_m m then 1 else (0::nat)"
  have "hi + ?e \<le> nlength_m m" using hi by simp
  then have "(hi + ?e) * nwidth_m m \<le> nlength_m m * nwidth_m m" by (rule mult_le_mono1)
  then have "(hi + ?e) * nwidth_m m * 6 \<le> nlength_m m * nwidth_m m * 6" by (rule mult_le_mono1)
  then have ve: "vend_of m hi \<le> nlength_m m * nwidth_m m * 6"
    by (simp only: vend_of_plain [OF nw fit hi])
  from rewrite_vertices_total [OF nw fit d Cons.prems(1) ve] obtain vs1 where
    a: "rewrite_vertices m (vstart_of m lo) (vend_of m hi) vs = Some vs1" and
    o: "store_ok (nlength_m m * nwidth_m m * 6) vs1" by blast
  have "\<forall>r \<in> set rs. snd r \<le> nlength_m m" using Cons.prems(2) by simp
  from Cons.IH [OF o this] obtain vs2 where
    b: "rewrite_ranges m rs vs1 =
          Some (vs2, map (\<lambda>(lo, hi). (vstart_of m lo, sz_sub (vend_of m hi) 1)) rs)" and
    o2: "store_ok (nlength_m m * nwidth_m m * 6) vs2" by blast
  show ?case using a b o2 by (simp add: r)
qed

section \<open>What update changes\<close>

lemma detect_ranges_None:
  assumes "length (displacement_m m) \<le> nlength_m m" and "n \<le> length (displacement_m m)"
  shows "detect_ranges m elapsed n ranges = None"
  using assms
proof (induction "length (displacement_m m) - n" arbitrary: m n ranges)
  case 0
  then have "n \<le> nlength_m m" "length (displacement_m m) \<le> n" by simp_all
  then show ?case by (rule detect_ranges_out_of_range)
next
  case (Suc x)
  let ?m1 = "m\<lparr>displacement_m := (displacement_m m)[n := displacement m n elapsed]\<rparr>"
  have n: "n < length (displacement_m m)" using Suc.hyps(2) by simp
  then have nl: "n \<le> nlength_m m" using Suc.prems(1) by simp
  have "detect_ranges ?m1 elapsed (n + 1)
          (if changed m elapsed n then push_index ranges n else ranges) = None"
    using Suc.hyps(2) Suc.prems n by (intro Suc.hyps(1)) simp_all
  then show ?case by (simp only: detect_ranges_step [OF nl n])
qed

lemma detect_ranges_Some:
  assumes "detect_ranges m elapsed 0 [] = Some (ranges, m')"
  shows "nlength_m m < length (displacement_m m)"
    and "ranges = scan (changed m elapsed) (Suc (nlength_m m))"
    and "m' = m\<lparr>displacement_m := stored m elapsed 0\<rparr>"
proof -
  show l: "nlength_m m < length (displacement_m m)"
  proof (rule ccontr)
    assume "\<not> nlength_m m < length (displacement_m m)"
    then have "detect_ranges m elapsed 0 [] = None"
      by (intro detect_ranges_None) simp_all
    then show False using assms by simp
  qed
  show "ranges = scan (changed m elapsed) (Suc (nlength_m m))"
    and "m' = m\<lparr>displacement_m := stored m elapsed 0\<rparr>"
    using assms by (simp_all only: detect_ranges_scan [OF l] option.inject prod.inject)
qed

lemma vstart_of_cong [simp]:
  "vstart_of (m\<lparr>displacement_m := d\<rparr>) = vstart_of m"
  "vstart_of (m\<lparr>vertices := vs\<rparr>) = vstart_of m"
  by (simp_all add: vstart_of_def fun_eq_iff)

lemma vend_of_cong [simp]:
  "vend_of (m\<lparr>displacement_m := d\<rparr>) = vend_of m"
  "vend_of (m\<lparr>vertices := vs\<rparr>) = vend_of m"
  by (simp_all add: vend_of_def fun_eq_iff)

lemma update_Some:
  assumes "update m elapsed = Some (m', forwarded)"
  shows "\<exists>vs'. rewrite_ranges (m\<lparr>displacement_m := stored m elapsed 0\<rparr>)
                  (scan (changed m elapsed) (Suc (nlength_m m))) (vertices m) =
                Some (vs', forwarded) \<and>
              m' = m\<lparr>displacement_m := stored m elapsed 0, vertices := vs'\<rparr> \<and>
              detect_ranges m elapsed 0 [] =
                Some (scan (changed m elapsed) (Suc (nlength_m m)),
                      m\<lparr>displacement_m := stored m elapsed 0\<rparr>)"
proof -
  from assms obtain ranges m1 vs' where
    a: "detect_ranges m elapsed 0 [] = Some (ranges, m1)" and
    b: "rewrite_ranges m1 ranges (vertices m1) = Some (vs', forwarded)" and
    c: "m' = m1\<lparr>vertices := vs'\<rparr>"
    by (auto simp add: update_def split: option.splits)
  note d = detect_ranges_Some [OF a]
  show ?thesis
    using a b c by (intro exI [of _ vs']) (simp add: d(2,3))
qed

text \<open>
  The vertices of a range \<open>[vstart, vend)\<close> lie in the pair \<open>(vstart, vend - 1)\<close> that is
  passed on, also when the subtraction wraps around.
\<close>

lemma forwarded_covers:
  assumes "u < a \<or> sz_sub (vend_of m hi) 1 < u"
  shows "u < a \<or> vend_of m hi \<le> u"
proof (cases "vend_of m hi = 0")
  case True
  then show ?thesis by simp
next
  case False
  have "vend_of m hi < 2 ^ 64"
    by (simp add: vend_of_def sz_mul_def)
  then have "sz_sub (vend_of m hi) 1 = vend_of m hi - 1"
    using False by (intro sz_sub_less) simp_all
  then show ?thesis using assms False by auto
qed

text \<open>
  Claim C8. A call of \<^verbatim>\<open>update\<close> that returns keeps the number of vertices and the
  number of floats of every vertex, and changes no float other than the z components
  (the floats 2, 5, 8 and 11) of the vertices inside one of the vertex ranges that it
  passes on: the x and y components of every vertex, and every float of a vertex outside
  all these ranges, are as before.
\<close>

theorem update_rewrites_only_dirty_z:
  assumes "update m elapsed = Some (m', forwarded)"
  shows "length (vertices m') = length (vertices m) \<and>
         (\<forall>v. length (vertices m' ! v) = length (vertices m ! v)) \<and>
         (\<forall>v (k::nat).
            (k \<noteq> 2 \<and> k \<noteq> 5 \<and> k \<noteq> 8 \<and> k \<noteq> 11) \<or>
            (\<forall>(a, b) \<in> set forwarded. v < a \<or> b < v) \<longrightarrow>
            vertices m' ! v ! k = vertices m ! v ! k)"
proof -
  let ?m1 = "m\<lparr>displacement_m := stored m elapsed 0\<rparr>"
  let ?rs = "scan (changed m elapsed) (Suc (nlength_m m))"
  from update_Some [OF assms] obtain vs' where
    r: "rewrite_ranges ?m1 ?rs (vertices m) = Some (vs', forwarded)" and
    m': "m' = m\<lparr>displacement_m := stored m elapsed 0, vertices := vs'\<rparr>"
    by blast
  note f = rewrite_ranges_frame [OF r]
  have fw: "forwarded = map (\<lambda>(lo, hi). (vstart_of m lo, sz_sub (vend_of m hi) 1)) ?rs"
    using f by simp
  have out: "\<forall>(lo, hi) \<in> set ?rs. v < vstart_of m lo \<or> vend_of m hi \<le> v"
    if h: "\<forall>(a, b) \<in> set forwarded. v < a \<or> b < v" for v
  proof (intro ballI)
    fix r assume r: "r \<in> set ?rs"
    obtain lo hi where lh: "r = (lo, hi)" by (cases r)
    have "(vstart_of m lo, sz_sub (vend_of m hi) 1) \<in> set forwarded"
      unfolding fw using r lh by force
    then have "v < vstart_of m lo \<or> sz_sub (vend_of m hi) 1 < v"
      using h by blast
    then have "v < vstart_of m lo \<or> vend_of m hi \<le> v"
      by (rule forwarded_covers)
    then show "case r of (lo, hi) \<Rightarrow> v < vstart_of m lo \<or> vend_of m hi \<le> v"
      by (simp add: lh)
  qed
  show ?thesis
  proof (intro conjI allI impI)
    show "length (vertices m') = length (vertices m)" using f by (simp add: m')
  next
    fix v show "length (vertices m' ! v) = length (vertices m ! v)" using f by (simp add: m')
  next
    fix v and k :: nat
    assume "(k \<noteq> 2 \<and> k \<noteq> 5 \<and> k \<noteq> 8 \<and> k \<noteq> 11) \<or>
            (\<forall>(a, b) \<in> set forwarded. v < a \<or> b < v)"
    then have "(k \<noteq> 2 \<and> k \<noteq> 5 \<and> k \<noteq> 8 \<and> k \<noteq> 11) \<or>
            (\<forall>(lo, hi) \<in> set ?rs. v < vstart_of ?m1 lo \<or> vend_of ?m1 hi \<le> v)"
      using out [of v] by auto
    then have "vs' ! v ! k = vertices m ! v ! k" using f by blast
    then show "vertices m' ! v ! k = vertices m ! v ! k" by (simp add: m')
  qed
qed

section \<open>update stays in bounds\<close>

lemma shape_ok_bounds:
  assumes "shape_ok m"
  shows "0 < nwidth_m m" and "0 < nlength_m m"
    and "nlength_m m * nwidth_m m * 6 < 2 ^ 64"
    and "nlength_m m < 2 ^ 64" and "Suc (nlength_m m) \<le> 2 ^ 64"
    and "length (displacement_m m) = nlength_m m + 1"
    and "store_ok (nlength_m m * nwidth_m m * 6) (vertices m)"
proof -
  show nw: "0 < nwidth_m m" and "0 < nlength_m m"
    and fit: "nlength_m m * nwidth_m m * 6 < 2 ^ 64"
    and "length (displacement_m m) = nlength_m m + 1"
    and "store_ok (nlength_m m * nwidth_m m * 6) (vertices m)"
    using assms by (simp_all add: shape_ok_def)
  show "nlength_m m < 2 ^ 64"
    using grid_bounds(3) [OF nw fit le_refl] .
  then show "Suc (nlength_m m) \<le> 2 ^ 64" by (rule Suc_leI)
qed

lemma scan_bounds:
  assumes "nlength_m m < 2 ^ 64" and "r \<in> set (scan c (Suc (nlength_m m)))"
  shows "snd r \<le> nlength_m m" and "fst r < snd r \<or> r = (0, 0)"
proof -
  have "Suc (nlength_m m) \<le> 2 ^ 64" using assms(1) by (rule Suc_leI)
  from ranges_inv_scan [OF this, of c]
  have "\<forall>r \<in> set (scan c (Suc (nlength_m m))).
          snd r < Suc (nlength_m m) \<and> (fst r < snd r \<or> r = (0, 0)) \<and> c (snd r) \<and>
          (\<forall>i. fst r < i \<and> i \<le> snd r \<longrightarrow> c i)"
    unfolding ranges_inv_def by (rule conjunct1)
  from bspec [OF this assms(2)]
  show "snd r \<le> nlength_m m" and "fst r < snd r \<or> r = (0, 0)"
    by (simp_all only: less_Suc_eq_le)
qed

lemma update_total:
  assumes "shape_ok m"
  shows "\<exists>vs'. update m elapsed =
           Some (m\<lparr>displacement_m := stored m elapsed 0, vertices := vs'\<rparr>,
                 map (\<lambda>(lo, hi). (vstart_of m lo, sz_sub (vend_of m hi) 1))
                   (scan (changed m elapsed) (Suc (nlength_m m)))) \<and>
           store_ok (nlength_m m * nwidth_m m * 6) vs'"
proof -
  let ?m1 = "m\<lparr>displacement_m := stored m elapsed 0\<rparr>"
  let ?rs = "scan (changed m elapsed) (Suc (nlength_m m))"
  note b = shape_ok_bounds [OF assms]
  have l: "nlength_m m < length (displacement_m m)" using b(6) by simp
  have nw: "0 < nwidth_m ?m1" using b(1) by simp
  have fit: "nlength_m ?m1 * nwidth_m ?m1 * 6 < 2 ^ 64" using b(3) by simp
  have d: "length (displacement_m ?m1) = nlength_m ?m1 + 1"
    using b(6) by (simp add: length_stored)
  have ok: "store_ok (nlength_m ?m1 * nwidth_m ?m1 * 6) (vertices ?m1)" using b(7) by simp
  have rs: "\<forall>r \<in> set ?rs. snd r \<le> nlength_m ?m1"
    using scan_bounds(1) [OF b(4)] by simp
  from rewrite_ranges_total [OF nw fit d ok rs] obtain vs' where
    r: "rewrite_ranges ?m1 ?rs (vertices ?m1) =
          Some (vs', map (\<lambda>(lo, hi). (vstart_of ?m1 lo, sz_sub (vend_of ?m1 hi) 1)) ?rs)" and
    o: "store_ok (nlength_m ?m1 * nwidth_m ?m1 * 6) vs'" by blast
  have "update m elapsed =
           Some (m\<lparr>displacement_m := stored m elapsed 0, vertices := vs'\<rparr>,
                 map (\<lambda>(lo, hi). (vstart_of m lo, sz_sub (vend_of m hi) 1)) ?rs)"
    using r by (simp add: update_def detect_ranges_scan [OF l])
  then show ?thesis using o by auto
qed





section \<open>What the ranges cover\<close>

lemma shape_ok_new:
  assumes "1 \<le> nlength" and "1 \<le> nwidth" and "nlength * nwidth * 6 < 2 ^ 64"
  shows "shape_ok (WaveMesh_new len width nlength nwidth wavelength duty_cycle)"
proof -
  let ?N = "nlength * nwidth * 6"
  let ?g = "make_grid nlength nwidth len width (Fin 0) wave_grid_conf"
  have nw: "0 < nwidth" using assms(2) by simp
  have "nlength * 1 \<le> nlength * nwidth" using assms(2) by (rule mult_le_mono2)
  then have "nlength * 1 * 2 \<le> nlength * nwidth * 6" by (rule mult_le_mono) simp
  moreover have "nlength + 1 \<le> nlength * 1 * 2" using assms(1) by simp
  ultimately have "nlength + 1 \<le> ?N" by (rule le_trans [rotated])
  then have "nlength + 1 < 2 ^ 64" using assms(3) by (rule le_less_trans)
  then have d: "sz_add nlength 1 = nlength + 1" by (rule sz_add_less)
  have "length (?g ! u) = 12" if "u < ?N" for u
    by (simp only: make_grid_nth [OF that] grid_quad_length mod_less_divisor zero_less_numeral)
  then have "store_ok ?N ?g"
    by (simp add: store_ok_def length_make_grid)
  then show ?thesis
    unfolding shape_ok_def WaveMesh_new_fields d
    by (intro conjI assms length_replicate)
qed



lemma scan_step:
  assumes "k' = Suc k"
  shows "scan c k' = (if c k then push_index (scan c k) k else scan c k)"
  unfolding assms by (rule scan.simps(2))

lemma sz_sub_small:
  "sz_sub 1 1 = 0" "sz_sub 2 1 = 1" "sz_sub 3 1 = 2" "sz_sub 4 1 = 3"
  "sz_sub 12 1 = 11" "sz_sub 24 1 = 23" "sz_sub 0 1 = 2 ^ 64 - 1"
  by (simp_all add: sz_sub_def)


lemma scan_alternating:
  assumes "\<not> c 0" and "c 1" and "\<not> c 2" and "c 3" and "\<not> c 4"
  shows "scan c 5 = [(0, 1), (2, 3)]"
proof -
  have p1: "push_index [] 1 = [(0, 1)]"
    by (simp add: push_index_def sz_sub_small del: One_nat_def)
  have p3: "push_index [(0, 1)] 3 = [(0, 1), (2, 3)]"
    by (simp add: push_index_def sz_sub_small del: One_nat_def)
  have "scan c 1 = []"
    using scan_step [of 1 0 c] assms(1) by simp
  then have "scan c 2 = [(0, 1)]"
    using scan_step [of 2 1 c] assms(2) p1 by simp
  then have "scan c 3 = [(0, 1)]"
    using scan_step [of 3 2 c] assms(3) by simp
  then have "scan c 4 = [(0, 1), (2, 3)]"
    using scan_step [of 4 3 c] assms(4) p3 by simp
  then show "scan c 5 = [(0, 1), (2, 3)]"
    using scan_step [of 5 4 c] assms(5) by simp
qed


section \<open>A mesh with wave packets\<close>

lemma packets_sizes:
  "nlength_m packets = 4" "nwidth_m packets = 1"
  "displacement_m packets = replicate 5 (Fin 0)"
  by (simp_all add: packets_def WaveMesh_new_fields sz_add_def)

lemma packets_wave:
  "length_m packets = Fin 4"
  "wave_k_m packets = Fin (2 * pi)"
  "wave_period_m packets = Fin 1"
  "wave_full_period_m packets = Fin 2"
  "wave_velocity_m packets = Fin (2 / 5)"
  by (simp_all add: packets_def WaveMesh_new_fields M_PI_def)

lemma packets_shape: "shape_ok packets"
  unfolding packets_def by (rule shape_ok_new) simp_all

lemma packets_displacement:
  "displacement packets n (Fin (5 / 8)) = wave_func packets (Fin (real n - 1 / 4))"
  by (simp add: displacement_def packets_wave packets_sizes of_size_t_def)

lemma packets_wave_func_r:
  assumes "trunc (x / 2) = q" and "x - of_int q * 2 = r0"
  shows "wave_func packets (Fin x) =
         (let r = (if r0 < 0 then r0 + 2 else r0)
          in if 1 < r then Fin 0 else Fin (sin (2 * pi * r) / 5))"
proof -
  have "fmod (Fin x) (Fin 2) = Fin r0"
    by (simp only: fmod.simps assms) simp
  then show ?thesis
    by (simp add: wave_func_def packets_wave Let_def)
qed

lemma packets_wave_func:
  "wave_func packets (Fin (- (1 / 4))) = Fin 0"
  "wave_func packets (Fin (3 / 4)) = Fin (- (1 / 5))"
  "wave_func packets (Fin (7 / 4)) = Fin 0"
  "wave_func packets (Fin (11 / 4)) = Fin (- (1 / 5))"
  "wave_func packets (Fin (15 / 4)) = Fin 0"
proof -
  have s: "sin (3 * pi / 2) = - 1"
    using sin_3over2_pi by simp
  have t0: "trunc (- (1 / 4) / 2) = 0" "trunc (3 / 4 / 2) = 0" "trunc (7 / 4 / 2) = 0"
    by (rule trunc_small; simp)+
  have t1: "trunc (11 / 4 / 2) = 1" "trunc (15 / 4 / 2) = 1"
    by (simp_all add: trunc_def)
  show "wave_func packets (Fin (- (1 / 4))) = Fin 0"
    using packets_wave_func_r [OF t0(1), of "- (1 / 4)"] by simp
  show "wave_func packets (Fin (3 / 4)) = Fin (- (1 / 5))"
    using packets_wave_func_r [OF t0(2), of "3 / 4"] s by simp
  show "wave_func packets (Fin (7 / 4)) = Fin 0"
    using packets_wave_func_r [OF t0(3), of "7 / 4"] by simp
  show "wave_func packets (Fin (11 / 4)) = Fin (- (1 / 5))"
    using packets_wave_func_r [OF t1(1), of "3 / 4"] s by simp
  show "wave_func packets (Fin (15 / 4)) = Fin 0"
    using packets_wave_func_r [OF t1(2), of "7 / 4"] by simp
qed

lemma packets_displacements:
  "displacement packets 0 (Fin (5 / 8)) = Fin 0"
  "displacement packets 1 (Fin (5 / 8)) = Fin (- (1 / 5))"
  "displacement packets 2 (Fin (5 / 8)) = Fin 0"
  "displacement packets 3 (Fin (5 / 8)) = Fin (- (1 / 5))"
  "displacement packets 4 (Fin (5 / 8)) = Fin 0"
  using packets_wave_func by (simp_all add: packets_displacement)

lemma packets_changed:
  "\<not> changed packets (Fin (5 / 8)) 0" "changed packets (Fin (5 / 8)) 1"
  "\<not> changed packets (Fin (5 / 8)) 2" "changed packets (Fin (5 / 8)) 3"
  "\<not> changed packets (Fin (5 / 8)) 4"
  by (simp_all add: changed_def packets_displacements packets_sizes dne_def
      del: One_nat_def)




section \<open>The first update of the mesh with wave packets\<close>

lemma packets_vertex_bounds:
  "vstart_of packets 0 = 0" "vend_of packets 1 = 12"
  "vstart_of packets 2 = 12" "vend_of packets 3 = 24"
  by (simp_all add: vstart_of_def vend_of_def packets_sizes sz_add_def sz_mul_def)

lemma packets_vertex_7_x: "vertices packets ! 7 ! 0 = Fin 2"
proof -
  have "(7::nat) < 4 * 1 * 6" by simp
  from make_grid_nth [OF this, of "Fin 4" "Fin 1" "Fin 0"]
  have "vertices packets ! 7 ! 0 =
        grid_quad 4 1 (Fin 4) (Fin 1) (Fin 0) (7 div (6 * 1)) (7 mod (6 * 1) div 6) ! (7 mod 6) ! 0"
    by (simp only: packets_def WaveMesh_new_fields)
  also have "\<dots> = line_pos (Fin 4) 4 (7 div (6 * 1) + 7 mod 6 mod 2)"
    by (rule grid_quad_own_x) simp
  also have "\<dots> = Fin 2"
    by (simp add: line_pos_def of_size_t_def)
  finally show ?thesis .
qed

lemma packets_update:
  "\<exists>vs'. update packets (Fin (5 / 8)) =
          Some (packets\<lparr>displacement_m := stored packets (Fin (5 / 8)) 0, vertices := vs'\<rparr>,
                [(0, 11), (12, 23)]) \<and>
         store_ok 24 vs'"
proof -
  have s: "scan (changed packets (Fin (5 / 8))) 5 = [(0, 1), (2, 3)]"
    using packets_changed by (rule scan_alternating)
  have "map (\<lambda>(lo, hi). (vstart_of packets lo, sz_sub (vend_of packets hi) 1))
          [(0, 1), (2, 3)] = [(0, 11), (12, 23)]"
    using packets_vertex_bounds sz_sub_small by simp
  then show ?thesis
    using update_total [OF packets_shape, of "Fin (5 / 8)"] s
    by (simp add: packets_sizes del: scan.simps)
qed


text \<open>
  Claim C8 at the first \<^verbatim>\<open>update\<close> of the mesh with wave packets: the 24 vertices are
  kept, and the x coordinate of vertex 7 is as the constructor left it.
\<close>

theorem update_rewrites_only_dirty_z_witness:
  "\<exists>m'. update packets (Fin (5 / 8)) = Some (m', [(0, 11), (12, 23)]) \<and>
        length (vertices m') = 24 \<and> vertices m' ! 7 ! 0 = Fin 2"
proof -
  from packets_update obtain vs' where
    u: "update packets (Fin (5 / 8)) =
          Some (packets\<lparr>displacement_m := stored packets (Fin (5 / 8)) 0, vertices := vs'\<rparr>,
                [(0, 11), (12, 23)])" by blast
  let ?m' = "packets\<lparr>displacement_m := stored packets (Fin (5 / 8)) 0, vertices := vs'\<rparr>"
  note f = update_rewrites_only_dirty_z [OF u]
  have l: "length (vertices packets) = 24"
    using packets_shape by (simp add: shape_ok_def store_ok_def packets_sizes)
  have "vertices ?m' ! 7 ! 0 = vertices packets ! 7 ! 0"
    using f by simp
  then have "vertices ?m' ! 7 ! 0 = Fin 2"
    using packets_vertex_7_x by simp
  moreover have "length (vertices ?m') = 24" using f l by simp
  ultimately show ?thesis using u by blast
qed

section \<open>The first update of the scenario\<close>



section \<open>A second update at the same time\<close>






lemma wave_ok_cong [simp]:
  "wave_ok (m\<lparr>displacement_m := d\<rparr>) = wave_ok m"
  "wave_ok (m\<lparr>vertices := vs\<rparr>) = wave_ok m"
  by (simp_all add: wave_ok_def)






section \<open>The end-to-end scenario\<close>








section \<open>The state after construction\<close>







section \<open>The displacement function\<close>




section \<open>Degenerate configurations\<close>

lemma NaN_absorbs:
  "x * NaN = NaN" "x - NaN = NaN" "x + NaN = NaN" "x / NaN = NaN" "fmod x NaN = NaN"
  "\<not> x < NaN" "fmod x (Fin 0) = NaN"
  by (cases x; simp)+

lemma wave_func_bad_period:
  assumes "wave_full_period_m m = Fin 0 \<or> wave_full_period_m m = NaN"
  shows "wave_func m x = NaN"
  using assms by (auto simp add: wave_func_def NaN_absorbs Let_def)

lemma displacement_nlength_0:
  assumes "nlength_m m = 0"
  shows "displacement m 0 t = NaN"
proof -
  have "of_size_t 0 * length_m m / of_size_t 0 = NaN"
    by (cases "length_m m") (simp_all add: of_size_t_def)
  then show ?thesis
    by (simp add: displacement_def assms wave_func_def NaN_absorbs Let_def)
qed

lemma zero_wavelength_period:
  "wave_full_period_m (WaveMesh_new len width nlength nwidth (Fin 0) duty_cycle) = Fin 0 \<or>
   wave_full_period_m (WaveMesh_new len width nlength nwidth (Fin 0) duty_cycle) = NaN"
  by (cases len; cases duty_cycle) (simp_all add: WaveMesh_new_fields M_PI_def)

lemma displacement_zero_wavelength:
  "displacement (WaveMesh_new len width nlength nwidth (Fin 0) duty_cycle) n t = NaN"
  unfolding displacement_def Let_def
  by (rule wave_func_bad_period) (rule zero_wavelength_period)

lemma update_nlength_0:
  "update (WaveMesh_new len width 0 nwidth wavelength duty_cycle) t =
   Some ((WaveMesh_new len width 0 nwidth wavelength duty_cycle)\<lparr>displacement_m := [NaN]\<rparr>,
         [(0, 2 ^ 64 - 1)])"
proof -
  let ?m = "WaveMesh_new len width 0 nwidth wavelength duty_cycle"
  let ?m1 = "?m\<lparr>displacement_m := [NaN]\<rparr>"
  have nl: "nlength_m ?m = 0" and d: "displacement_m ?m = [Fin 0]"
    and vs: "vertices ?m = []"
    by (simp_all add: WaveMesh_new_fields sz_add_def make_grid_def)
  have dn: "displacement ?m 0 t = NaN" using nl by (rule displacement_nlength_0)
  have c: "changed ?m t 0" by (simp add: changed_def dn dne_def)
  have s: "scan (changed ?m t) (Suc 0) = [(0, 0)]"
    using c by (simp add: push_index_def)
  have st: "stored ?m t 0 = [NaN]"
    by (simp add: stored_def nl d dn)
  have l: "nlength_m ?m < length (displacement_m ?m)" by (simp add: nl d)
  have det: "detect_ranges ?m t 0 [] = Some ([(0, 0)], ?m1)"
    using detect_ranges_scan [OF l, of t] by (simp only: nl s st)
  have v: "vstart_of ?m 0 = 0" "vend_of ?m 0 = 0"
    by (simp_all add: vstart_of_def vend_of_def nl sz_add_def sz_mul_def)
  have v1: "vstart_of ?m1 0 = 0" "vend_of ?m1 0 = 0"
    using v by simp_all
  have rv: "rewrite_vertices ?m1 0 0 [] = Some []"
    by (subst rewrite_vertices_unfold) simp
  have rr: "rewrite_ranges ?m1 [(0, 0)] (vertices ?m1) = Some ([], [(0, 2 ^ 64 - 1)])"
    unfolding rewrite_ranges.simps v1 by (simp add: vs rv sz_sub_small del: One_nat_def)
  have "update ?m t =
        (case rewrite_ranges ?m1 [(0, 0)] (vertices ?m1) of
           None \<Rightarrow> None
         | Some (vs, forwarded) \<Rightarrow> Some (?m1\<lparr>vertices := vs\<rparr>, forwarded))"
    by (simp only: update_def det option.case prod.case)
  also have "\<dots> = Some (?m1\<lparr>vertices := []\<rparr>, [(0, 2 ^ 64 - 1)])"
    by (simp only: rr option.case prod.case)
  also have "?m1\<lparr>vertices := []\<rparr> = ?m1" using vs by simp
  finally show ?thesis .
qed

text \<open>
  Claim C9, as stated, fails: with \<open>nlength = 0\<close> (and the other parameters of the
  scenario) the constructor and \<^verbatim>\<open>update\<close> return; \<^verbatim>\<open>update(0)\<close> stores the
  displacement NaN and passes the vertex range \<open>(0, 2^64 - 1)\<close> on.
\<close>

theorem degenerate_nlength_stores_nan:
  "map_option (displacement_m \<circ> fst) (update (WaveMesh_new (Fin 4) (Fin 1) 0 1 (Fin 1) (Fin 1)) (Fin 0))
     = Some [NaN] \<and>
   map_option snd (update (WaveMesh_new (Fin 4) (Fin 1) 0 1 (Fin 1) (Fin 1)) (Fin 0))
     = Some [(0, 2 ^ 64 - 1)]"
  by (simp add: update_nlength_0)

text \<open>
  Claim C9, as amended. For the degenerate configurations the core makes no check and
  fails nowhere. With \<open>nlength = 0\<close>, whatever the other parameters and the elapsed time,
  the displacement of the length index 0 is NaN, and \<^verbatim>\<open>update\<close> returns, stores this NaN
  and passes the vertex range \<open>(0, 2^64 - 1)\<close> on. With a wavelength fraction of 0,
  whatever the other parameters, every displacement is NaN.
\<close>

theorem degenerate_configurations_unchecked:
  "displacement (WaveMesh_new len width 0 nwidth wavelength duty_cycle) 0 t = NaN \<and>
   map_option (displacement_m \<circ> fst)
     (update (WaveMesh_new len width 0 nwidth wavelength duty_cycle) t) = Some [NaN] \<and>
   map_option snd
     (update (WaveMesh_new len width 0 nwidth wavelength duty_cycle) t) = Some [(0, 2 ^ 64 - 1)] \<and>
   displacement (WaveMesh_new len width nlength nwidth (Fin 0) duty_cycle) n t = NaN"
proof -
  have "displacement (WaveMesh_new len width 0 nwidth wavelength duty_cycle) 0 t = NaN"
    by (rule displacement_nlength_0) (simp add: WaveMesh_new_fields)
  then show ?thesis
    by (simp add: update_nlength_0 displacement_zero_wavelength)
qed

text \<open>The amended claim C9 for a zero wavelength fraction in the scenario.\<close>

theorem degenerate_configurations_unchecked_witness:
  "displacement (WaveMesh_new (Fin 4) (Fin 1) 4 1 (Fin 0) (Fin 1)) 1 (Fin 0) = NaN \<and>
   displacement (WaveMesh_new (Fin 4) (Fin 1) 0 1 (Fin 1) (Fin 1)) 0 (Fin 0) = NaN"
  using degenerate_configurations_unchecked [of "Fin 4" "Fin 1" 1 "Fin 1" "Fin 1" "Fin 0" 4 1]
  by simp

end
